theory Spec2Isabelle
  imports Main "HOL-Library.Word"
begin

section \<open>Data model\<close>

text \<open>
  The package \<^verbatim>\<open>ts\<close> keeps records (``Things'') in one slice allocated up front and hands
  out generation-checked handles to them. The model follows the newer version of the arena
  (the one with \<^verbatim>\<open>activeThings\<close> and \<^verbatim>\<open>insideLists\<close>) and the intrusive list of
  \<^verbatim>\<open>list.go\<close>.

  Go's \<^verbatim>\<open>uint32\<close> is a 32-bit word, \<^verbatim>\<open>uint\<close> and \<^verbatim>\<open>uintptr\<close> are 64-bit words
  (a 64-bit platform); all of them wrap around.
\<close>

type_synonym u32 = "32 word"
type_synonym uint = "64 word"

text \<open>\<^verbatim>\<open>type ThingRef struct { idx, generation uint32 }\<close>; \<^verbatim>\<open>NilRef\<close> is its zero value.\<close>

record ThingRef =
  idx :: u32
  generation :: u32

definition NilRef :: ThingRef where
  "NilRef = \<lparr>idx = 0, generation = 0\<rparr>"

text \<open>
  \<^verbatim>\<open>type List[Thing any] struct\<close>. The field \<^verbatim>\<open>things *Things[Thing]\<close> is the flag
  \<open>arena\<close>: \<open>True\<close> when the pointer is set (there is one arena), \<open>False\<close> when it is nil.
  The field \<^verbatim>\<open>next\<close> is called \<open>nxt\<close>. The field \<^verbatim>\<open>offset uintptr\<close> is what
  \<^verbatim>\<open>Init\<close> computes, the address of the list minus the address of the owner's record, in
  bytes and modulo \<open>2^64\<close>.
\<close>

record TList =
  arena :: bool
  isInitialized :: bool
  owner :: ThingRef
  offset :: uint
  first :: ThingRef
  nxt :: ThingRef
  prev :: ThingRef

text \<open>The zero value \<^verbatim>\<open>List[Thing]{}\<close>.\<close>

definition zeroList :: TList where
  "zeroList = \<lparr>arena = False, isInitialized = False, owner = NilRef, offset = 0,
     first = NilRef, nxt = NilRef, prev = NilRef\<rparr>"

text \<open>
  The type parameter \<^verbatim>\<open>Thing\<close>. A value of it: whatever the client stores (\<open>payload\<close>)
  and the list fields embedded in it, each under its byte offset in the record.
  \<open>zeroThing\<close> is Go's \<^verbatim>\<open>var z Thing\<close>.
\<close>

record 'p Thing =
  payload :: 'p
  lists :: "nat \<Rightarrow> TList"

definition zeroThing :: "('p::zero) Thing" where
  "zeroThing = \<lparr>payload = 0, lists = (\<lambda>_. zeroList)\<rparr>"

text \<open>
  What the code reads of the type itself, through package \<^verbatim>\<open>unsafe\<close>:
  \<^verbatim>\<open>unsafe.Sizeof\<close> of a record, and the byte offsets at which the record embeds a
  \<^verbatim>\<open>List[Thing]\<close> (the addresses a client can pass as \<^verbatim>\<open>curr\<close>).
  \<^verbatim>\<open>unsafe.Sizeof\<close> of a \<^verbatim>\<open>List[Thing]\<close> is 56: a pointer, a \<^verbatim>\<open>bool\<close> padded
  to 4 bytes, a \<^verbatim>\<open>ThingRef\<close> of 8 bytes, 4 bytes of padding, a \<^verbatim>\<open>uintptr\<close> and
  three more \<^verbatim>\<open>ThingRef\<close>.
\<close>

record ThingType =
  sizeof :: nat
  listFields :: "nat list"

definition listSize :: nat where
  "listSize = 56"

text \<open>
  A \<^verbatim>\<open>*Thing\<close> as \<^verbatim>\<open>get\<close> returns it: the address of a slot of \<^verbatim>\<open>things.things\<close>, or the
  address of a freshly allocated zero value. A \<^verbatim>\<open>*List[Thing]\<close>: the list field at byte
  offset \<open>b\<close> of slot \<open>i\<close> (\<open>InSlot i b\<close>), or a list outside the arena (inside such a fresh
  zero value, or a copy a client holds), which nothing else aliases and which is therefore
  carried by value.
\<close>

datatype ThingPtr = AtSlot nat | AtZero

datatype ListPtr = InSlot nat nat | Detached TList

text \<open>
  What stops a call short of returning: the two run-time panics the code can raise, the
  end of the fuel that bounds the list traversal in the model, and \<open>Stray\<close>: the code has
  computed, with \<^verbatim>\<open>unsafe.Add\<close>, a pointer that addresses neither a list field of a slot
  nor a part of a fresh zero value. What it then reads or writes through that pointer is
  outside the arena and has no value here.
\<close>

datatype halt = NilDereference | IndexOutOfRange | OutOfFuel | Stray

datatype level = Warn | Error

text \<open>
  \<^verbatim>\<open>type Things[Thing any] struct\<close>, together with the package variable \<^verbatim>\<open>logger\<close>
  (\<open>True\<close>: a sink is set, \<open>False\<close>: nil) and what has been written to the sink so far.
  \<^verbatim>\<open>insideLists\<close> is a Go map: a missing key reads as the empty slice. \<open>thingType\<close> is
  the type argument the arena was made for.
\<close>

record 'p Things =
  thingType :: ThingType
  maxThings :: u32
  activeThings :: uint
  things :: "'p Thing list"
  used :: "bool list"
  generations :: "u32 list"
  insideLists :: "ThingRef \<rightharpoonup> ListPtr list"
  logger :: bool
  diagnostics :: "(level \<times> string) list"

section \<open>Panics, slices and the diagnostic sink\<close>

definition and_then :: "halt + 'a \<Rightarrow> ('a \<Rightarrow> halt + 'b) \<Rightarrow> halt + 'b" where
  "and_then m f = (case m of Inl e \<Rightarrow> Inl e | Inr x \<Rightarrow> f x)"

text \<open>\<^verbatim>\<open>xs[i]\<close> and \<^verbatim>\<open>xs[i] = v\<close> on a slice: out of range is a run-time panic.\<close>

definition index :: "'a list \<Rightarrow> nat \<Rightarrow> halt + 'a" where
  "index xs i = (if i < length xs then Inr (xs ! i) else Inl IndexOutOfRange)"

definition store :: "'a list \<Rightarrow> nat \<Rightarrow> 'a \<Rightarrow> halt + 'a list" where
  "store xs i v = (if i < length xs then Inr (xs[i := v]) else Inl IndexOutOfRange)"

text \<open>\<^verbatim>\<open>logger.Warn(msg, ...)\<close> on a sink that is set.\<close>

definition emit :: "level \<Rightarrow> string \<Rightarrow> 'p Things \<Rightarrow> 'p Things" where
  "emit l msg s = s\<lparr>diagnostics := diagnostics s @ [(l, msg)]\<rparr>"

text \<open>\<^verbatim>\<open>if logger != nil { logger.Warn(msg, ...) }\<close>\<close>

definition log_if :: "level \<Rightarrow> string \<Rightarrow> 'p Things \<Rightarrow> 'p Things" where
  "log_if l msg s = (if logger s then emit l msg s else s)"

text \<open>
  \<^verbatim>\<open>logger.Warn(msg, ...)\<close> with no nil check: \<^verbatim>\<open>(*slog.Logger).Warn\<close> reads the handler
  of its receiver, so a nil logger is a nil pointer dereference.
\<close>

definition log_unchecked :: "level \<Rightarrow> string \<Rightarrow> 'p Things \<Rightarrow> halt + 'p Things" where
  "log_unchecked l msg s = (if logger s then Inr (emit l msg s) else Inl NilDereference)"

definition SetLogger :: "'p Things \<Rightarrow> bool \<Rightarrow> 'p Things" where
  "SetLogger s l = s\<lparr>logger := l\<rparr>"

section \<open>The arena\<close>

text \<open>
  \<^verbatim>\<open>NewThings[Thing](maxThings)\<close>, with the type argument first: \<^verbatim>\<open>maxThings += 1\<close> on
  a \<^verbatim>\<open>uint\<close>, the three slices of that length, and \<^verbatim>\<open>maxThings: uint32(maxThings)\<close>,
  which truncates. The package variable \<^verbatim>\<open>logger\<close> starts out set. (\<^verbatim>\<open>make\<close> panics
  for a length the allocator cannot serve; \<open>NewThings\<close> is the call that returned.)
\<close>

definition NewThings :: "ThingType \<Rightarrow> uint \<Rightarrow> ('p::zero) Things" where
  "NewThings ty n =
     \<lparr>thingType = ty, maxThings = ucast (n + 1), activeThings = 0,
      things = replicate (unat (n + 1)) zeroThing,
      used = replicate (unat (n + 1)) False,
      generations = replicate (unat (n + 1)) 0,
      insideLists = Map.empty, logger = True, diagnostics = []\<rparr>"

definition isNotNil :: "'p Things \<Rightarrow> ThingRef \<Rightarrow> bool" where
  "isNotNil s ref = (0 < idx ref \<and> idx ref < maxThings s)"

text \<open>
  \<^verbatim>\<open>dead := things.used[ref.idx] == false || ref.generation != things.generations[ref.idx]\<close>:
  the second slice is read only when the first operand is false.
\<close>

definition isAlive :: "'p Things \<Rightarrow> ThingRef \<Rightarrow> halt + bool" where
  "isAlive s ref =
     and_then (index (used s) (unat (idx ref))) (\<lambda>u.
       if u = False then Inr False
       else and_then (index (generations s) (unat (idx ref))) (\<lambda>g.
         Inr (\<not> (generation ref \<noteq> g))))"

definition IsActive :: "'p Things \<Rightarrow> ThingRef \<Rightarrow> halt + bool" where
  "IsActive s ref = (if isNotNil s ref then isAlive s ref else Inr False)"

text \<open>\<^verbatim>\<open>get\<close>: the pointer to the slot, or to a new zero value; \<^verbatim>\<open>Get\<close> also warns.\<close>

definition get :: "'p Things \<Rightarrow> ThingRef \<Rightarrow> halt + ThingPtr" where
  "get s ref =
     and_then (IsActive s ref) (\<lambda>a.
       if a then and_then (index (things s) (unat (idx ref))) (\<lambda>_. Inr (AtSlot (unat (idx ref))))
       else Inr AtZero)"

definition Get :: "'p Things \<Rightarrow> ThingRef \<Rightarrow> halt + ('p Things \<times> ThingPtr)" where
  "Get s ref =
     and_then (IsActive s ref) (\<lambda>a.
       if a then and_then (index (things s) (unat (idx ref))) (\<lambda>_. Inr (s, AtSlot (unat (idx ref))))
       else Inr (log_if Warn ''Derefence of NilRef.'' s, AtZero))"

text \<open>The record behind a \<^verbatim>\<open>*Thing\<close>.\<close>

definition load :: "('p::zero) Things \<Rightarrow> ThingPtr \<Rightarrow> 'p Thing" where
  "load s p = (case p of AtSlot i \<Rightarrow> things s ! i | AtZero \<Rightarrow> zeroThing)"

text \<open>
  \<^verbatim>\<open>findEmpty\<close>: the loop \<^verbatim>\<open>for i := 1; i < len(things.used); i++\<close> as a recursion over
  the slice from index 1 on; \<^verbatim>\<open>uint32(i)\<close> truncates.
\<close>

fun findEmpty_loop :: "nat \<Rightarrow> bool list \<Rightarrow> nat option" where
  "findEmpty_loop i [] = None"
| "findEmpty_loop i (u # us) = (if \<not> u then Some i else findEmpty_loop (Suc i) us)"

definition findEmpty :: "'p Things \<Rightarrow> halt + ('p Things \<times> ThingRef)" where
  "findEmpty s =
     (case findEmpty_loop 1 (drop 1 (used s)) of
        Some i \<Rightarrow>
          and_then (index (generations s) i) (\<lambda>g. Inr (s, \<lparr>idx = of_nat i, generation = g\<rparr>))
      | None \<Rightarrow>
          Inr (log_if Error ''Ran out of memory, allocate more things in NewThings()'' s, NilRef))"

definition New :: "'p Things \<Rightarrow> 'p Thing \<Rightarrow> halt + ('p Things \<times> ThingRef)" where
  "New s thing =
     and_then (findEmpty s) (\<lambda>(s1, ref).
     and_then (store (used s1) (unat (idx ref)) True) (\<lambda>used'.
     and_then (store (things s1) (unat (idx ref)) thing) (\<lambda>things'.
       Inr (s1\<lparr>used := used', things := things', activeThings := activeThings s1 + 1\<rparr>, ref))))"



section \<open>The intrusive list\<close>

text \<open>
  The receiver \<^verbatim>\<open>curr *List[Thing]\<close> of the methods is the pointer \<open>cur\<close> below; a receiver
  reached as \<^verbatim>\<open>things.Get(ref).Field\<close> is \<open>InSlot (unat (idx ref)) f\<close>, with \<open>f\<close> the
  byte offset of the field in the record, for an active \<open>ref\<close>, and \<open>Detached zeroList\<close>
  otherwise.

  Reading and writing through a \<^verbatim>\<open>*List[Thing]\<close>. A pointer into the slice comes from
  \<^verbatim>\<open>get\<close>, after its bounds check, and the slice keeps its length, so the slot exists.
  What is written to a list outside the arena is not part of the state.
\<close>

definition rd :: "'p Things \<Rightarrow> ListPtr \<Rightarrow> TList" where
  "rd s p = (case p of InSlot i f \<Rightarrow> lists (things s ! i) f | Detached c \<Rightarrow> c)"

definition wr :: "'p Things \<Rightarrow> ListPtr \<Rightarrow> (TList \<Rightarrow> TList) \<Rightarrow> 'p Things" where
  "wr s p g =
     (case p of
        InSlot i f \<Rightarrow>
          s\<lparr>things := (things s)[i := (things s ! i)\<lparr>lists :=
               (lists (things s ! i))(f := g (lists (things s ! i) f))\<rparr>]\<rparr>
      | Detached c \<Rightarrow> s)"

text \<open>The pointer after such a write: a list carried by value has changed.\<close>

definition held :: "ListPtr \<Rightarrow> (TList \<Rightarrow> TList) \<Rightarrow> ListPtr" where
  "held p g = (case p of InSlot i f \<Rightarrow> InSlot i f | Detached c \<Rightarrow> Detached (g c))"

text \<open>
  \<^verbatim>\<open>curr.things.get(ref)\<close> where \<^verbatim>\<open>curr.things\<close> may be nil: \<^verbatim>\<open>isNotNil\<close> reads
  \<^verbatim>\<open>things.maxThings\<close> only after \<^verbatim>\<open>ref.idx > 0\<close>, so a nil arena still answers for an
  index of 0 and panics for any other.
\<close>

definition get_via :: "'p Things \<Rightarrow> TList \<Rightarrow> ThingRef \<Rightarrow> halt + ThingPtr" where
  "get_via s c ref =
     (if arena c then get s ref
      else if 0 < idx ref then Inl NilDereference else Inr AtZero)"

text \<open>
  Addresses. The slots of \<^verbatim>\<open>things.things\<close> lie one after the other, each
  \<^verbatim>\<open>ownerSize = unsafe.Sizeof(Thing)\<close> bytes long. \<open>addr s i b\<close> is the address of byte
  \<open>b\<close> of slot \<open>i\<close> as a \<^verbatim>\<open>uintptr\<close>, counted from the start of the slice (the code only
  subtracts addresses and adds offsets to them, so the start of the slice cancels out).
  \<open>field_at s a\<close> is the \<^verbatim>\<open>*List[Thing]\<close> with the address \<open>a\<close>: a list field of a slot if
  \<open>a\<close> lies in the slice and is where the type has a list field.
\<close>

definition ownerSize :: "'p Things \<Rightarrow> nat" where
  "ownerSize s = sizeof (thingType s)"

definition addr :: "'p Things \<Rightarrow> nat \<Rightarrow> nat \<Rightarrow> uint" where
  "addr s i b = of_nat (i * ownerSize s + b)"

definition field_at :: "'p Things \<Rightarrow> uint \<Rightarrow> halt + ListPtr" where
  "field_at s a =
     (if unat a < length (things s) * ownerSize s
         \<and> unat a mod ownerSize s \<in> set (listFields (thingType s))
      then Inr (InSlot (unat a div ownerSize s) (unat a mod ownerSize s))
      else Inl Stray)"

text \<open>
  \<^verbatim>\<open>getListDataFromThing\<close>: \<^verbatim>\<open>unsafe.Add(unsafe.Pointer(thing), curr.offset)\<close> for
  \<^verbatim>\<open>thing := curr.things.get(thingRef)\<close>. For a slot that is the address of the slot plus
  the offset, modulo \<open>2^64\<close>. In a fresh zero record every list that lies inside the record
  is the zero list, and nothing else aliases it.
\<close>

definition getListDataFromThing :: "'p Things \<Rightarrow> TList \<Rightarrow> ThingRef \<Rightarrow> halt + ListPtr" where
  "getListDataFromThing s c thingRef =
     and_then (get_via s c thingRef) (\<lambda>p.
       case p of
         AtSlot i \<Rightarrow> field_at s (addr s i 0 + offset c)
       | AtZero \<Rightarrow>
           if unat (offset c) + listSize \<le> ownerSize s then Inr (Detached zeroList)
           else Inl Stray)"

text \<open>
  \<^verbatim>\<open>Init\<close>, with \<^verbatim>\<open>things\<close> the arena. The offset is
  \<^verbatim>\<open>uintptr(unsafe.Pointer(curr)) - uintptr(unsafe.Pointer(owner))\<close>, and the check is
  \<^verbatim>\<open>curr.offset+listSize > ownerSize\<close>, both on \<^verbatim>\<open>uintptr\<close>: when \<^verbatim>\<open>curr\<close> lies
  before \<^verbatim>\<open>owner\<close> the difference wraps around, and the sum may wrap again. When both
  lie in the slice the difference is that of their addresses there. When one of them does
  not (\<^verbatim>\<open>owner\<close> is a fresh zero value, or \<^verbatim>\<open>curr\<close> is a list outside the arena), it is
  the distance \<open>gap\<close> at which the allocator has put the two, which the call is given.
\<close>

definition Init :: "'p Things \<Rightarrow> ListPtr \<Rightarrow> ThingRef \<Rightarrow> uint \<Rightarrow> halt + 'p Things" where
  "Init s cur self gap =
     (if self = NilRef then Inr s
      else if owner (rd s cur) \<noteq> NilRef then
        Inr (log_if Error ''Cannot Initialize a if Thing is already part of this list field. Add a new List field and initialize that instead.'' s)
      else
        and_then (get s self) (\<lambda>ownerp.
          let off = (case (cur, ownerp) of
                       (InSlot i b, AtSlot j) \<Rightarrow> addr s i b - addr s j 0
                     | _ \<Rightarrow> gap)
          in
            if of_nat (ownerSize s) < off + of_nat listSize then
              Inr (log_if Error ''Incorrect owner ThingRef passed'' (wr s cur (\<lambda>_. zeroList)))
            else
              Inr (wr s cur (\<lambda>b. b\<lparr>isInitialized := True, owner := self, arena := True,
                                      offset := off\<rparr>))))"

text \<open>\<^verbatim>\<open>things.insideLists[ref]\<close>\<close>

definition inside :: "'p Things \<Rightarrow> ThingRef \<Rightarrow> ListPtr list" where
  "inside s ref = (case insideLists s ref of None \<Rightarrow> [] | Some ps \<Rightarrow> ps)"

text \<open>
  The guard of \<^verbatim>\<open>append\<close>:
  \<^verbatim>\<open>!curr.isInitialized || !curr.things.isNotNil(r) || !curr.things.isAlive(r)\<close>,
  evaluated left to right.
\<close>

definition append_rejects :: "'p Things \<Rightarrow> TList \<Rightarrow> ThingRef \<Rightarrow> halt + bool" where
  "append_rejects s c r =
     (if \<not> isInitialized c then Inr True
      else if \<not> 0 < idx r then Inr True
      else if \<not> arena c then Inl NilDereference
      else if \<not> idx r < maxThings s then Inr True
      else and_then (isAlive s r) (\<lambda>a. Inr (\<not> a)))"

definition append1 :: "'p Things \<Rightarrow> ListPtr \<Rightarrow> ThingRef \<Rightarrow> halt + 'p Things" where
  "append1 s cur newThingRef =
     and_then (append_rejects s (rd s cur) newThingRef) (\<lambda>reject.
       if reject then log_unchecked Warn ''Append to uninitialized list'' s
       else
         and_then (getListDataFromThing s (rd s cur) newThingRef) (\<lambda>newThing.
           let s1 = s\<lparr>insideLists :=
                        (insideLists s)(newThingRef \<mapsto> inside s newThingRef @ [newThing])\<rparr>;
               s2 = wr s1 newThing (\<lambda>b. b\<lparr>arena := arena (rd s1 cur)\<rparr>);
               s3 = wr s2 newThing (\<lambda>b. b\<lparr>offset := offset (rd s2 cur)\<rparr>);
               s4 = wr s3 newThing (\<lambda>b. b\<lparr>owner := owner (rd s3 cur)\<rparr>)
           in
             if first (rd s4 cur) = NilRef \<and> nxt (rd s4 cur) = NilRef
                \<and> prev (rd s4 cur) = NilRef
             then
               let s5 = wr s4 newThing (\<lambda>b. b\<lparr>first := newThingRef\<rparr>);
                   s6 = wr s5 newThing (\<lambda>b. b\<lparr>nxt := newThingRef\<rparr>);
                   s7 = wr s6 newThing (\<lambda>b. b\<lparr>prev := newThingRef\<rparr>);
                   s8 = wr s7 cur (\<lambda>b. b\<lparr>first := newThingRef\<rparr>);
                   s9 = wr s8 cur (\<lambda>b. b\<lparr>nxt := newThingRef\<rparr>)
               in Inr (wr s9 cur (\<lambda>b. b\<lparr>prev := newThingRef\<rparr>))
             else
               and_then (getListDataFromThing s4 (rd s4 cur) (first (rd s4 cur)))
                 (\<lambda>firstThing.
               let lastRef = prev (rd s4 firstThing) in
               and_then (getListDataFromThing s4 (rd s4 cur) lastRef) (\<lambda>lastThing.
                 let s5 = wr s4 newThing (\<lambda>b. b\<lparr>first := first (rd s4 cur)\<rparr>);
                     s6 = wr s5 newThing (\<lambda>b. b\<lparr>prev := lastRef\<rparr>);
                     s7 = wr s6 newThing (\<lambda>b. b\<lparr>nxt := first (rd s6 cur)\<rparr>);
                     s8 = wr s7 lastThing (\<lambda>b. b\<lparr>nxt := newThingRef\<rparr>)
                 in Inr (wr s8 firstThing (\<lambda>b. b\<lparr>prev := newThingRef\<rparr>))))))"

text \<open>\<^verbatim>\<open>Append(things ...ThingRef)\<close>: \<^verbatim>\<open>append\<close> (here \<open>append1\<close>) for each in turn.\<close>

fun Append :: "'p Things \<Rightarrow> ListPtr \<Rightarrow> ThingRef list \<Rightarrow> halt + 'p Things" where
  "Append s cur [] = Inr s"
| "Append s cur (t # ts) = and_then (append1 s cur t) (\<lambda>s'. Append s' cur ts)"

text \<open>\<^verbatim>\<open>PopSelf\<close>, statement by statement.\<close>

definition PopSelf :: "'p Things \<Rightarrow> ListPtr \<Rightarrow> halt + 'p Things" where
  "PopSelf s cur =
     (if owner (rd s cur) = NilRef then
        Inr (log_if Warn ''Tried to Pop from uninitialized list'' s)
      else if first (rd s cur) = NilRef then
        Inr (log_if Warn ''Tried to Pop from empty list'' s)
      else
        and_then (getListDataFromThing s (rd s cur) (nxt (rd s cur))) (\<lambda>nextp.
          let curRef = prev (rd s nextp) in
          if nxt (rd s cur) = curRef then Inr (wr s cur (\<lambda>_. zeroList))
          else
            and_then (getListDataFromThing s (rd s cur) (first (rd s cur))) (\<lambda>firstp.
            and_then (getListDataFromThing s (rd s cur) (prev (rd s cur))) (\<lambda>prevp.
              let s1 = wr s prevp (\<lambda>b. b\<lparr>nxt := nxt (rd s cur)\<rparr>);
                  s2 = wr s1 nextp (\<lambda>b. b\<lparr>prev := prev (rd s1 cur)\<rparr>);
                  s3 = (if curRef = first (rd s2 cur)
                        then wr s2 cur (\<lambda>b. b\<lparr>first := nxt (rd s2 cur)\<rparr>) else s2);
                  s4 = (if curRef = prev (rd s3 firstp)
                        then wr s3 firstp (\<lambda>b. b\<lparr>prev := prev (rd s3 cur)\<rparr>) else s3)
              in Inr (wr s4 cur (\<lambda>_. zeroList))))))"

text \<open>
  \<^verbatim>\<open>InsertNext\<close>. None of the three checks returns. The pointer \<^verbatim>\<open>newThing\<close> is put into
  \<^verbatim>\<open>insideLists\<close> before the list it points to is written; as a list outside the arena is
  carried by value, the entry is made with the contents the two writes leave in it (nothing
  in between reads \<^verbatim>\<open>insideLists\<close>).
\<close>

definition InsertNext :: "'p Things \<Rightarrow> ListPtr \<Rightarrow> ThingRef \<Rightarrow> halt + 'p Things" where
  "InsertNext s cur newThingRef =
     (let s1 = (if newThingRef = NilRef
                then log_if Warn ''Tried to insert NilRef into list'' s else s);
          s2 = (if owner (rd s1 cur) = NilRef
                then log_if Warn ''Tried to Insert into uninitialized list'' s1 else s1);
          s3 = (if first (rd s2 cur) = NilRef
                then log_if Warn ''Tried to Insert into empty list'' s2 else s2)
      in
        and_then (getListDataFromThing s3 (rd s3 cur) newThingRef) (\<lambda>newThing.
          if \<not> arena (rd s3 cur) then Inl NilDereference
          else
            and_then (getListDataFromThing s3 (rd s3 cur) (nxt (rd s3 cur))) (\<lambda>nextp.
              let curThingRef = prev (rd s3 nextp);
                  link = (\<lambda>b. b\<lparr>nxt := nxt (rd s3 cur), prev := curThingRef\<rparr>);
                  s4 = s3\<lparr>insideLists :=
                         (insideLists s3)(newThingRef \<mapsto>
                            inside s3 newThingRef @ [held newThing link])\<rparr>;
                  s5 = wr s4 newThing (\<lambda>b. b\<lparr>nxt := nxt (rd s4 cur)\<rparr>);
                  s6 = wr s5 newThing (\<lambda>b. b\<lparr>prev := curThingRef\<rparr>);
                  s7 = wr s6 nextp (\<lambda>b. b\<lparr>prev := newThingRef\<rparr>);
                  s8 = wr s7 cur (\<lambda>b. b\<lparr>nxt := newThingRef\<rparr>);
                  c8 = rd s8 (held cur (\<lambda>b. b\<lparr>nxt := newThingRef\<rparr>))
              in
                and_then (getListDataFromThing s8 c8 (first c8)) (\<lambda>firstp.
                  if nxt c8 = first c8
                  then Inr (wr s8 firstp (\<lambda>b. b\<lparr>prev := newThingRef\<rparr>))
                  else Inr s8))))"

text \<open>
  \<^verbatim>\<open>List.Each\<close>: the loop yields \<^verbatim>\<open>current\<close>, moves to its \<^verbatim>\<open>next\<close> and stops when it
  is back at \<^verbatim>\<open>curr.first\<close>. It need not stop, so the model counts its rounds down from a
  fuel and answers \<open>OutOfFuel\<close> when none is left. The result is everything the
  iterator yields to a consumer that never stops it and does not change the lists.
\<close>

fun Each_loop ::
  "nat \<Rightarrow> 'p Things \<Rightarrow> TList \<Rightarrow> ThingRef \<Rightarrow> halt + (ThingRef \<times> ThingPtr) list" where
  "Each_loop 0 s c current = Inl OutOfFuel"
| "Each_loop (Suc n) s c current =
     and_then (get_via s c current) (\<lambda>p.
     and_then (getListDataFromThing s c current) (\<lambda>q.
       if nxt (rd s q) = first c then Inr [(current, p)]
       else and_then (Each_loop n s c (nxt (rd s q))) (\<lambda>rest. Inr ((current, p) # rest))))"

definition Each ::
  "nat \<Rightarrow> 'p Things \<Rightarrow> ListPtr \<Rightarrow> halt + ('p Things \<times> (ThingRef \<times> ThingPtr) list)" where
  "Each fuel s cur =
     (if \<not> isInitialized (rd s cur) then
        Inr (log_if Warn ''Range over uninitialized list'' s, [])
      else
        and_then (Each_loop fuel s (rd s cur) (first (rd s cur))) (\<lambda>ys. Inr (s, ys)))"

definition Count :: "nat \<Rightarrow> 'p Things \<Rightarrow> ListPtr \<Rightarrow> halt + ('p Things \<times> nat)" where
  "Count fuel s cur =
     (if \<not> isInitialized (rd s cur) then
        Inr (log_if Warn ''Attempt to Count uninitialized list'' s, 0)
      else and_then (Each fuel s cur) (\<lambda>(s', ys). Inr (s', length ys)))"

definition Owner :: "'p Things \<Rightarrow> ListPtr \<Rightarrow> 'p Things \<times> ThingRef" where
  "Owner s cur =
     ((if owner (rd s cur) = NilRef
       then log_if Warn ''Tried to get Owner of uninitialized list'' s else s),
      owner (rd s cur))"

definition First :: "'p Things \<Rightarrow> ListPtr \<Rightarrow> halt + ('p Things \<times> ThingPtr)" where
  "First s cur =
     and_then (get_via s (rd s cur) (first (rd s cur))) (\<lambda>p.
       Inr ((if owner (rd s cur) = NilRef
             then log_if Warn ''Tried to get First Thing in uninitialized list'' s else s), p))"

text \<open>
  \<^verbatim>\<open>Del\<close>: the range over \<^verbatim>\<open>things.insideLists[ref]\<close> pops every list that is not the zero
  list, then the slot is recycled.
\<close>

fun Del_loop :: "'p Things \<Rightarrow> ListPtr list \<Rightarrow> halt + 'p Things" where
  "Del_loop s [] = Inr s"
| "Del_loop s (l # ls) =
     (if rd s l \<noteq> zeroList then and_then (PopSelf s l) (\<lambda>s'. Del_loop s' ls)
      else Del_loop s ls)"

definition Del :: "'p Things \<Rightarrow> ThingRef \<Rightarrow> halt + 'p Things" where
  "Del s ref =
     and_then (IsActive s ref) (\<lambda>a.
       if a then
         and_then (Del_loop s (inside s ref)) (\<lambda>s1.
           let s2 = s1\<lparr>insideLists := (insideLists s1)(ref := None)\<rparr> in
           and_then (store (used s2) (unat (idx ref)) False) (\<lambda>used'.
           and_then (index (generations s2) (unat (idx ref))) (\<lambda>g.
           and_then (store (generations s2) (unat (idx ref)) (g + 1)) (\<lambda>generations'.
           and_then (index (things s2) 0) (\<lambda>z.
           and_then (store (things s2) (unat (idx ref)) z) (\<lambda>things'.
             Inr (s2\<lparr>used := used', generations := generations', things := things',
                     activeThings := activeThings s2 - 1\<rparr>)))))))
       else Inr (log_if Warn ''Tried to Delete inactive Thing'' s))"

section \<open>Well-formed arenas\<close>

text \<open>
  What \<^verbatim>\<open>NewThings\<close> establishes and no operation changes: the three slices have one
  length, and \<^verbatim>\<open>maxThings\<close> (truncated to 32 bits) does not exceed it.
\<close>

definition wf :: "'p Things \<Rightarrow> bool" where
  "wf s = (length (things s) = length (used s) \<and> length (generations s) = length (used s)
           \<and> unat (maxThings s) \<le> length (used s))"

text \<open>The value of \<^verbatim>\<open>IsActive\<close> where it cannot panic.\<close>

definition active :: "'p Things \<Rightarrow> ThingRef \<Rightarrow> bool" where
  "active s ref =
     (isNotNil s ref \<and> used s ! unat (idx ref)
      \<and> generation ref = generations s ! unat (idx ref))"

section \<open>Sequences of calls\<close>

text \<open>\<^verbatim>\<open>New\<close> for each record of a list in turn, with the references returned.\<close>

fun News :: "'p Things \<Rightarrow> 'p Thing list \<Rightarrow> halt + ('p Things \<times> ThingRef list)" where
  "News s [] = Inr (s, [])"
| "News s (t # ts) =
     and_then (New s t) (\<lambda>(s1, r). and_then (News s1 ts) (\<lambda>(s2, rs). Inr (s2, r # rs)))"

text \<open>\<open>n\<close> rounds of \<^verbatim>\<open>New\<close> followed by \<^verbatim>\<open>Del\<close> of the reference it returned.\<close>

fun churn :: "nat \<Rightarrow> 'p Things \<Rightarrow> 'p Thing \<Rightarrow> halt + 'p Things" where
  "churn 0 s t = Inr s"
| "churn (Suc n) s t =
     and_then (New s t) (\<lambda>(s1, r). and_then (Del s1 r) (\<lambda>s2. churn n s2 t))"

text \<open>Any sequence of calls of the package, each on the state the one before left.\<close>

datatype 'p op =
    OpNew "'p Thing" | OpDel ThingRef | OpGet ThingRef | OpSetLogger bool
  | OpInit ListPtr ThingRef uint | OpAppend ListPtr "ThingRef list" | OpInsertNext ListPtr ThingRef
  | OpPopSelf ListPtr

fun step :: "'p Things \<Rightarrow> 'p op \<Rightarrow> halt + 'p Things" where
  "step s (OpNew t) = and_then (New s t) (\<lambda>(s', r). Inr s')"
| "step s (OpDel r) = Del s r"
| "step s (OpGet r) = and_then (Get s r) (\<lambda>(s', p). Inr s')"
| "step s (OpSetLogger l) = Inr (SetLogger s l)"
| "step s (OpInit p r gap) = Init s p r gap"
| "step s (OpAppend p rs) = Append s p rs"
| "step s (OpInsertNext p r) = InsertNext s p r"
| "step s (OpPopSelf p) = PopSelf s p"

fun run :: "'p Things \<Rightarrow> 'p op list \<Rightarrow> halt + 'p Things" where
  "run s [] = Inr s"
| "run s (x # xs) = and_then (step s x) (\<lambda>s'. run s' xs)"

text \<open>
  The calls of such a sequence that free slot \<open>i\<close>: each \<^verbatim>\<open>Del\<close> of a reference to that
  slot that is active when the call is made.
\<close>

definition frees_slot :: "nat \<Rightarrow> 'p Things \<Rightarrow> 'p op \<Rightarrow> bool" where
  "frees_slot i s x =
     (case x of OpDel r \<Rightarrow> unat (idx r) = i \<and> IsActive s r = Inr True | _ \<Rightarrow> False)"

fun frees :: "nat \<Rightarrow> 'p Things \<Rightarrow> 'p op list \<Rightarrow> nat" where
  "frees i s [] = 0"
| "frees i s (x # xs) =
     (case step s x of
        Inl e \<Rightarrow> 0
      | Inr s' \<Rightarrow> (if frees_slot i s x then 1 else 0) + frees i s' xs)"

section \<open>Predicates on states\<close>

text \<open>
  What holds of the memory of every Go program: each list field the type names lies inside
  the record, and the slice lies inside the address space.
\<close>

definition layout_ok :: "'p Things \<Rightarrow> bool" where
  "layout_ok s =
     ((\<forall>b \<in> set (listFields (thingType s)). b + listSize \<le> ownerSize s)
      \<and> length (things s) * ownerSize s < 2 ^ 64)"

text \<open>
  A list with an owner has its arena pointer set, and its offset is that of a list field of
  the type: so it is when \<^verbatim>\<open>Init\<close> has bound the list to the record that holds it, and
  \<^verbatim>\<open>append\<close> copies both to the members.
\<close>

definition bound_ok :: "'p Things \<Rightarrow> TList \<Rightarrow> bool" where
  "bound_ok s c =
     (owner c = NilRef \<or> (arena c \<and> unat (offset c) \<in> set (listFields (thingType s))))"

text \<open>What a list operation leaves alone: everything but the records and the diagnostics.\<close>

definition frame :: "'p Things \<Rightarrow> 'p Things \<Rightarrow> bool" where
  "frame s s' = (thingType s' = thingType s
     \<and> maxThings s' = maxThings s \<and> activeThings s' = activeThings s
     \<and> used s' = used s \<and> generations s' = generations s \<and> insideLists s' = insideLists s
     \<and> logger s' = logger s \<and> length (things s') = length (things s))"

definition keeps :: "'p Things \<Rightarrow> 'p Things \<Rightarrow> bool" where
  "keeps s s' = (frame s s' \<and> (\<forall>q. bound_ok s (rd s q) \<longrightarrow> bound_ok s' (rd s' q)))"

text \<open>\<open>P\<close> holds of what a call returns, if it returns.\<close>

definition holds :: "halt + 'a \<Rightarrow> ('a \<Rightarrow> bool) \<Rightarrow> bool" where
  "holds m P = (case m of Inl e \<Rightarrow> True | Inr x \<Rightarrow> P x)"

text \<open>
  What every call leaves alone: the type, \<^verbatim>\<open>maxThings\<close> and the lengths of the slices.
\<close>

definition slots_step :: "'p Things \<Rightarrow> 'p Things \<Rightarrow> bool" where
  "slots_step s s' =
     (thingType s' = thingType s
      \<and> maxThings s' = maxThings s \<and> length (things s') = length (things s)
      \<and> length (used s') = length (used s) \<and> length (generations s') = length (generations s))"

text \<open>What \<^verbatim>\<open>IsActive\<close> depends on is unchanged.\<close>

definition same_slots :: "'p Things \<Rightarrow> 'p Things \<Rightarrow> bool" where
  "same_slots s s' = (thingType s' = thingType s
     \<and> maxThings s' = maxThings s \<and> used s' = used s
     \<and> generations s' = generations s \<and> length (things s') = length (things s))"

text \<open>
  \<^verbatim>\<open>curr.getListDataFromThing(current).next\<close>, the step of the traversal in
  \<^verbatim>\<open>List.Each\<close>.
\<close>

definition next_of :: "'p Things \<Rightarrow> ListPtr \<Rightarrow> ThingRef \<Rightarrow> halt + ThingRef" where
  "next_of s cur current =
     and_then (getListDataFromThing s (rd s cur) current) (\<lambda>q. Inr (nxt (rd s q)))"

text \<open>
  The list field at byte offset \<open>f\<close> of the live owner \<open>a\<close> is initialized and holds the
  live, distinct members \<open>bs\<close> in this order: it is empty, or its \<^verbatim>\<open>first\<close> is the head
  of \<open>bs\<close>, whose \<^verbatim>\<open>prev\<close> is the last of \<open>bs\<close>, and \<^verbatim>\<open>next\<close> of each member is the one
  after it, the first again after the last.
\<close>

definition linked :: "'p Things \<Rightarrow> ThingRef \<Rightarrow> nat \<Rightarrow> ThingRef list \<Rightarrow> bool" where
  "linked s a f bs =
     (wf s \<and> layout_ok s \<and> f \<in> set (listFields (thingType s))
      \<and> active s a \<and> isInitialized (rd s (InSlot (unat (idx a)) f))
      \<and> arena (rd s (InSlot (unat (idx a)) f))
      \<and> offset (rd s (InSlot (unat (idx a)) f)) = of_nat f
      \<and> a \<notin> set bs \<and> distinct bs \<and> (\<forall>b \<in> set bs. active s b)
      \<and> (if bs = [] then first (rd s (InSlot (unat (idx a)) f)) = NilRef
              \<and> nxt (rd s (InSlot (unat (idx a)) f)) = NilRef
              \<and> prev (rd s (InSlot (unat (idx a)) f)) = NilRef
          else first (rd s (InSlot (unat (idx a)) f)) = hd bs
              \<and> prev (rd s (InSlot (unat (idx (hd bs))) f)) = last bs
              \<and> (\<forall>i < length bs. nxt (rd s (InSlot (unat (idx (bs ! i))) f))
                     = bs ! (Suc i mod length bs))))"

section \<open>Arenas in closed form\<close>

text \<open>
  The arena of capacity \<open>N\<close> after \<^verbatim>\<open>New\<close> of the records \<open>ts\<close>, with \<open>r\<close> slots still
  free, and the reference to slot \<open>i\<close> in its first generation.
\<close>

definition filled :: "ThingType \<Rightarrow> uint \<Rightarrow> ('p::zero) Thing list \<Rightarrow> nat \<Rightarrow> 'p Things" where
  "filled ty N ts r =
     \<lparr>thingType = ty, maxThings = ucast (N + 1), activeThings = of_nat (length ts),
      things = zeroThing # ts @ replicate r zeroThing,
      used = False # replicate (length ts) True @ replicate r False,
      generations = replicate (Suc (length ts + r)) 0,
      insideLists = Map.empty, logger = True, diagnostics = []\<rparr>"

definition slot_ref :: "nat \<Rightarrow> ThingRef" where
  "slot_ref i = \<lparr>idx = of_nat i, generation = 0\<rparr>"

text \<open>The arena of capacity 1: its one slot with generation \<open>g\<close>, used or not.\<close>

definition one_slot :: "ThingType \<Rightarrow> u32 \<Rightarrow> bool \<Rightarrow> uint \<Rightarrow> nat Thing \<Rightarrow> nat Things" where
  "one_slot ty g u a t =
     \<lparr>thingType = ty, maxThings = 2, activeThings = a, things = [zeroThing, t],
      used = [False, u],
      generations = [0, g], insideLists = Map.empty, logger = True, diagnostics = []\<rparr>"

section \<open>A concrete arena\<close>

text \<open>
  The arena of capacity 3 with the records A, B and C in the slots 1, 2 and 3, of the type
  \<^verbatim>\<open>struct { Inventory ts.List[Thing]; Payload uint64 }\<close> (64 bytes, the list field at
  byte offset 0), written out state by state: after the three \<^verbatim>\<open>New\<close> (\<open>scn3\<close>),
  after \<^verbatim>\<open>Init\<close> of A's list with owner A (\<open>scn4\<close>), after \<^verbatim>\<open>Append(B)\<close> (\<open>scn5\<close>),
  after \<^verbatim>\<open>Append(C)\<close> (\<open>scn6\<close>) and after \<^verbatim>\<open>Del(B)\<close> (\<open>scn7\<close>).
\<close>

definition itemType :: ThingType where
  "itemType = \<lparr>sizeof = 64, listFields = [0]\<rparr>"

definition tA :: "nat Thing" where "tA = \<lparr>payload = 10, lists = (\<lambda>_. zeroList)\<rparr>"
definition tB :: "nat Thing" where "tB = \<lparr>payload = 20, lists = (\<lambda>_. zeroList)\<rparr>"
definition tC :: "nat Thing" where "tC = \<lparr>payload = 30, lists = (\<lambda>_. zeroList)\<rparr>"
definition refA :: ThingRef where "refA = \<lparr>idx = 1, generation = 0\<rparr>"
definition refB :: ThingRef where "refB = \<lparr>idx = 2, generation = 0\<rparr>"
definition refC :: ThingRef where "refC = \<lparr>idx = 3, generation = 0\<rparr>"

definition headA :: TList where
  "headA = \<lparr>arena = True, isInitialized = True, owner = refA, offset = 0,
             first = NilRef, nxt = NilRef, prev = NilRef\<rparr>"

definition node :: "ThingRef \<Rightarrow> ThingRef \<Rightarrow> ThingRef \<Rightarrow> TList" where
  "node f n p = \<lparr>arena = True, isInitialized = False, owner = refA, offset = 0,
                  first = f, nxt = n, prev = p\<rparr>"

definition with_list :: "'p Thing \<Rightarrow> TList \<Rightarrow> 'p Thing" where
  "with_list t l = t\<lparr>lists := (lists t)(0 := l)\<rparr>"

definition scn ::
  "nat Thing list \<Rightarrow> bool list \<Rightarrow> u32 list \<Rightarrow> uint \<Rightarrow> (ThingRef \<rightharpoonup> ListPtr list)
   \<Rightarrow> nat Things" where
  "scn ts us gs n m =
     \<lparr>thingType = itemType, maxThings = 4, activeThings = n, things = ts, used = us,
      generations = gs, insideLists = m, logger = True, diagnostics = []\<rparr>"

definition scn0 :: "nat Things" where
  "scn0 = scn [zeroThing, zeroThing, zeroThing, zeroThing] [False, False, False, False]
              [0, 0, 0, 0] 0 Map.empty"

definition scn1 :: "nat Things" where
  "scn1 = scn [zeroThing, tA, zeroThing, zeroThing] [False, True, False, False]
              [0, 0, 0, 0] 1 Map.empty"

definition scn2 :: "nat Things" where
  "scn2 = scn [zeroThing, tA, tB, zeroThing] [False, True, True, False]
              [0, 0, 0, 0] 2 Map.empty"

definition scn3 :: "nat Things" where
  "scn3 = scn [zeroThing, tA, tB, tC] [False, True, True, True] [0, 0, 0, 0] 3 Map.empty"

definition scn4 :: "nat Things" where
  "scn4 = scn [zeroThing, with_list tA headA, tB, tC] [False, True, True, True]
              [0, 0, 0, 0] 3 Map.empty"

definition scn5 :: "nat Things" where
  "scn5 = scn [zeroThing, with_list tA (headA\<lparr>first := refB, nxt := refB, prev := refB\<rparr>),
               with_list tB (node refB refB refB), tC]
              [False, True, True, True] [0, 0, 0, 0] 3 [refB \<mapsto> [InSlot 2 0]]"

definition scn6 :: "nat Things" where
  "scn6 = scn [zeroThing, with_list tA (headA\<lparr>first := refB, nxt := refB, prev := refB\<rparr>),
               with_list tB (node refB refC refC), with_list tC (node refB refB refB)]
              [False, True, True, True] [0, 0, 0, 0] 3
              [refB \<mapsto> [InSlot 2 0], refC \<mapsto> [InSlot 3 0]]"

definition scn7 :: "nat Things" where
  "scn7 = scn [zeroThing, with_list tA (headA\<lparr>first := refB, nxt := refB, prev := refB\<rparr>),
               zeroThing, with_list tC (node refB refC refC)]
              [False, True, False, True] [0, 0, 1, 0] 2 [refC \<mapsto> [InSlot 3 0]]"

text \<open>\<^verbatim>\<open>New\<close> of B's record once more after \<^verbatim>\<open>Del(B)\<close> (from \<open>scn7\<close>).\<close>

definition scn8 :: "nat Things" where
  "scn8 = scn [zeroThing, with_list tA (headA\<lparr>first := refB, nxt := refB, prev := refB\<rparr>),
               tB, with_list tC (node refB refC refC)]
              [False, True, True, True] [0, 0, 1, 0] 3 [refC \<mapsto> [InSlot 3 0]]"

text \<open>\<^verbatim>\<open>InsertNext(B)\<close> on A's list while it is still empty (from \<open>scn4\<close>), and
  \<^verbatim>\<open>InsertNext(NilRef)\<close> on A's list with B and C in it (from \<open>scn6\<close>).\<close>

definition scn4_ins :: "nat Things" where
  "scn4_ins =
     (scn [zeroThing, with_list tA (headA\<lparr>nxt := refB\<rparr>), with_list tB zeroList, tC]
          [False, True, True, True] [0, 0, 0, 0] 3 [refB \<mapsto> [InSlot 2 0]])
     \<lparr>diagnostics := [(Warn, ''Tried to Insert into empty list'')]\<rparr>"

definition scn6_ins :: "nat Things" where
  "scn6_ins =
     (scn [zeroThing, with_list tA (headA\<lparr>first := refB, nxt := NilRef, prev := refB\<rparr>),
           with_list tB (node refB refC NilRef), with_list tC (node refB refB refB)]
          [False, True, True, True] [0, 0, 0, 0] 3
          [refB \<mapsto> [InSlot 2 0], refC \<mapsto> [InSlot 3 0],
           NilRef \<mapsto> [Detached (zeroList\<lparr>nxt := refB, prev := refC\<rparr>)]])
     \<lparr>diagnostics := [(Warn, ''Tried to insert NilRef into list'')]\<rparr>"

text \<open>\<^verbatim>\<open>PopSelf\<close> on B's list field in \<open>scn5\<close>, where B is the only member of A's list.\<close>

definition scn5_pop :: "nat Things" where
  "scn5_pop = scn [zeroThing, with_list tA (headA\<lparr>first := refB, nxt := refB, prev := refB\<rparr>),
                   with_list tB zeroList, tC]
                  [False, True, True, True] [0, 0, 0, 0] 3 [refB \<mapsto> [InSlot 2 0]]"

text \<open>\<^verbatim>\<open>New\<close> once more in the full arena \<open>scn3\<close>.\<close>

definition scn3_full :: "nat Things" where
  "scn3_full =
     (scn [tA, tA, tB, tC] [True, True, True, True] [0, 0, 0, 0] 4 Map.empty)
     \<lparr>diagnostics := [(Error, ''Ran out of memory, allocate more things in NewThings()'')]\<rparr>"

text \<open>The arena of capacity \<open>2^32 - 1\<close> after its first \<^verbatim>\<open>New\<close>.\<close>

definition big1 :: "nat Things" where
  "big1 = filled itemType 4294967295 [tA] 4294967294"

text \<open>
  The same three records when the type is
  \<^verbatim>\<open>struct { Payload uint64; Inventory ts.List[Thing] }\<close>: the list field, at byte offset
  8, ends where the record ends.
\<close>

definition tailType :: ThingType where
  "tailType = \<lparr>sizeof = 64, listFields = [8]\<rparr>"

definition tail3 :: "nat Things" where
  "tail3 = scn3\<lparr>thingType := tailType\<rparr>"

definition tail4 :: "nat Things" where
  "tail4 = wr tail3 (InSlot 1 8)
     (\<lambda>b. b\<lparr>isInitialized := True, owner := refB, arena := True, offset := - 56\<rparr>)"

section \<open>Basic facts\<close>

lemma and_then_simps [simp]: "and_then (Inr x) f = f x" "and_then (Inl e) f = Inl e"
  by (simp_all add: and_then_def)

text \<open>For evaluation on concrete states: the call is evaluated before what follows it.\<close>

lemma and_then_weak_cong: "m = m' \<Longrightarrow> and_then m f = and_then m' f"
  by simp

lemma replicate_numeral:
  "replicate (numeral k) x = x # replicate (pred_numeral k) x"
  by (simp add: numeral_eq_Suc)

lemma list_update_Cons_numeral:
  "(x # xs)[numeral v := y] = x # xs[numeral v - 1 := y]"
  by (simp add: numeral_eq_Suc)

lemma Each_loop_numeral [simp]:
  "Each_loop (numeral k) s c current =
     and_then (get_via s c current) (\<lambda>p.
     and_then (getListDataFromThing s c current) (\<lambda>q.
       if nxt (rd s q) = first c then Inr [(current, p)]
       else and_then (Each_loop (pred_numeral k) s c (nxt (rd s q)))
              (\<lambda>rest. Inr ((current, p) # rest))))"
  by (simp add: numeral_eq_Suc)

lemmas arena_defs = New_def findEmpty_def store_def index_def IsActive_def isNotNil_def
  isAlive_def get_def Get_def log_if_def emit_def log_unchecked_def

lemmas list_defs = Init_def rd_def wr_def held_def get_via_def getListDataFromThing_def
  inside_def append_rejects_def append1_def PopSelf_def InsertNext_def Each_def Count_def
  Owner_def First_def Del_def Let_def ownerSize_def addr_def field_at_def listSize_def

lemmas scn_defs = scn_def itemType_def tA_def tB_def tC_def refA_def refB_def refC_def
  headA_def node_def with_list_def NilRef_def zeroList_def zeroThing_def replicate_numeral
  list_update_Cons_numeral

subsection \<open>What a call returns\<close>

lemma and_then_Inr: "and_then m f = Inr y \<longleftrightarrow> (\<exists>x. m = Inr x \<and> f x = Inr y)"
  by (cases m) simp_all

lemma holds_simps [simp]: "holds (Inr x) P = P x" "holds (Inl e) P = True"
  by (simp_all add: holds_def)

lemma holds_and_then [simp]: "holds (and_then m f) P = holds m (\<lambda>x. holds (f x) P)"
  by (cases m) simp_all

lemma holdsI: "(\<And>x. P x) \<Longrightarrow> holds m P"
  by (cases m) simp_all

lemma holdsD: "holds m P \<Longrightarrow> m = Inr x \<Longrightarrow> P x"
  by simp

subsection \<open>Words\<close>

lemma unat_Suc_uint: "unat N < 2 ^ 64 - 1 \<Longrightarrow> unat (N + 1 :: uint) = Suc (unat N)"
  by (simp add: unat_word_ariths)

lemma unat_of_nat_u32: "n < 2 ^ 32 \<Longrightarrow> unat (of_nat n :: u32) = n"
  by (simp add: unat_of_nat)

lemma unat_Suc_u32: "Suc n < 2 ^ 32 \<Longrightarrow> unat (1 + of_nat n :: u32) = Suc n"
  using unat_of_nat_u32 [of "Suc n"] by simp

lemma maxThings_small:
  assumes "unat N < 2 ^ 32 - 1"
  shows "unat (ucast (N + 1 :: uint) :: u32) = Suc (unat N)"
proof -
  from assms have "unat (N + 1) = Suc (unat N)"
    by (simp add: unat_Suc_uint)
  moreover have "unat (ucast (N + 1) :: u32) = take_bit 32 (unat (N + 1))"
    by (simp add: unsigned_ucast_eq)
  ultimately show ?thesis
    using assms by (simp add: take_bit_nat_eq_self)
qed

lemma upt_0_Suc_map: "[0..<Suc n] = 0 # map Suc [0..<n]"
  by (metis map_Suc_upt upt_conv_Cons zero_less_Suc)

lemma of_nat_u32_nonzero: "0 < k \<Longrightarrow> k < 2 ^ 32 \<Longrightarrow> (of_nat k :: u32) \<noteq> 0"
  using unat_of_nat_u32 [of k] by auto

lemma unat_of_nat_uint: "n < 2 ^ 64 \<Longrightarrow> unat (of_nat n :: uint) = n"
  by (simp add: unat_of_nat)

subsection \<open>No panic in a well-formed arena\<close>

lemma isNotNil_bound: "wf s \<Longrightarrow> isNotNil s ref \<Longrightarrow> unat (idx ref) < length (used s)"
  by (simp add: wf_def isNotNil_def word_less_nat_alt)

lemma IsActive_wf: "wf s \<Longrightarrow> IsActive s ref = Inr (active s ref)"
  using isNotNil_bound [of s ref]
  by (auto simp: IsActive_def isAlive_def index_def active_def wf_def)

lemma get_wf:
  "wf s \<Longrightarrow> get s ref = Inr (if active s ref then AtSlot (unat (idx ref)) else AtZero)"
  using isNotNil_bound [of s ref]
  by (auto simp: get_def IsActive_wf index_def active_def wf_def)

lemma Get_wf:
  "wf s \<Longrightarrow> Get s ref =
     Inr (if active s ref then (s, AtSlot (unat (idx ref)))
          else (log_if Warn ''Derefence of NilRef.'' s, AtZero))"
  using isNotNil_bound [of s ref]
  by (auto simp: Get_def IsActive_wf index_def active_def wf_def)

lemma wf_NewThings: "wf (NewThings ty n)"
proof -
  have "unat (ucast (n + 1) :: u32) \<le> unat (n + 1)"
    by (simp add: unsigned_ucast_eq take_bit_nat_less_eq_self)
  then show ?thesis by (simp add: wf_def NewThings_def)
qed

subsection \<open>Reading and writing list fields\<close>

lemma wr_fields [simp]:
  "thingType (wr s p g) = thingType s"
  "maxThings (wr s p g) = maxThings s" "activeThings (wr s p g) = activeThings s"
  "used (wr s p g) = used s" "generations (wr s p g) = generations s"
  "insideLists (wr s p g) = insideLists s" "logger (wr s p g) = logger s"
  "diagnostics (wr s p g) = diagnostics s" "length (things (wr s p g)) = length (things s)"
  by (simp_all add: wr_def split: ListPtr.splits)

lemma rd_wr_same:
  "i < length (things s) \<Longrightarrow> rd (wr s (InSlot i f) g) (InSlot i f) = g (rd s (InSlot i f))"
  by (simp add: rd_def wr_def)

lemma rd_wr_other:
  "(i, f) \<noteq> (j, h) \<Longrightarrow> rd (wr s (InSlot i f) g) (InSlot j h) = rd s (InSlot j h)"
  by (cases "i = j"; cases "i < length (things s)") (auto simp: rd_def wr_def list_update_beyond)

lemma log_if_fields [simp]:
  "thingType (log_if l m s) = thingType s"
  "maxThings (log_if l m s) = maxThings s" "activeThings (log_if l m s) = activeThings s"
  "used (log_if l m s) = used s" "generations (log_if l m s) = generations s"
  "insideLists (log_if l m s) = insideLists s" "logger (log_if l m s) = logger s"
  "things (log_if l m s) = things s"
  by (simp_all add: log_if_def emit_def)

lemma rd_log_if [simp]: "rd (log_if l m s) p = rd s p"
  by (cases p) (simp_all add: rd_def)

lemma active_bound: "wf s \<Longrightarrow> active s ref \<Longrightarrow> unat (idx ref) < length (things s)"
  using isNotNil_bound [of s ref] by (simp add: active_def wf_def)

subsection \<open>Addresses of list fields\<close>

lemma ownerSize_simps [simp]:
  "ownerSize (wr s p g) = ownerSize s" "ownerSize (log_if l m s) = ownerSize s"
  "ownerSize (s\<lparr>insideLists := x\<rparr>) = ownerSize s"
  by (simp_all add: ownerSize_def)

lemma layout_ok_simps [simp]:
  "layout_ok (wr s p g) = layout_ok s" "layout_ok (log_if l m s) = layout_ok s"
  "layout_ok (s\<lparr>insideLists := x\<rparr>) = layout_ok s"
  by (simp_all add: layout_ok_def)

lemma bound_ok_simps [simp]:
  "bound_ok (wr s p g) c = bound_ok s c" "bound_ok (log_if l m s) c = bound_ok s c"
  by (simp_all add: bound_ok_def)

lemma field_fits:
  assumes "layout_ok s" and "f \<in> set (listFields (thingType s))" and "i < length (things s)"
  shows "f + listSize \<le> ownerSize s" and "i * ownerSize s + f < 2 ^ 64"
    and "ownerSize s < 2 ^ 64" and "f < ownerSize s"
proof -
  let ?z = "ownerSize s"
  from assms(1,2) show f: "f + listSize \<le> ?z"
    by (simp add: layout_ok_def)
  then show lt: "f < ?z"
    by (simp add: listSize_def)
  from assms(3) have "Suc i \<le> length (things s)" by simp
  then have "Suc i * ?z \<le> length (things s) * ?z"
    by (rule mult_le_mono1)
  with assms(1) have b: "Suc i * ?z < 2 ^ 64"
    by (simp add: layout_ok_def)
  with lt show "i * ?z + f < 2 ^ 64" by simp
  from b show "?z < 2 ^ 64" by simp
qed

lemma field_at_field:
  assumes "layout_ok s" and "f \<in> set (listFields (thingType s))" and "i < length (things s)"
  shows "field_at s (addr s i 0 + of_nat f) = Inr (InSlot i f)"
proof -
  let ?z = "ownerSize s"
  note fit = field_fits [OF assms]
  have "addr s i 0 + of_nat f = (of_nat (i * ?z + f) :: uint)"
    by (simp add: addr_def)
  then have u: "unat (addr s i 0 + of_nat f) = i * ?z + f"
    by (simp only: unat_of_nat_uint [OF fit(2)])
  from assms(3) have "Suc i \<le> length (things s)" by simp
  then have "Suc i * ?z \<le> length (things s) * ?z"
    by (rule mult_le_mono1)
  with fit(4) have inside: "i * ?z + f < length (things s) * ?z" by simp
  have "(i * ?z + f) div ?z = i" "(i * ?z + f) mod ?z = f"
    using fit(4) by simp_all
  with inside assms(2) show ?thesis
    by (simp add: field_at_def u)
qed

lemma addr_diff: "addr s i f - addr s i 0 = of_nat f"
  by (simp add: addr_def)

lemma offset_accepted:
  assumes "layout_ok s" and "f \<in> set (listFields (thingType s))" and "i < length (things s)"
  shows "\<not> (of_nat (ownerSize s) :: uint) < of_nat f + of_nat listSize"
proof -
  note fit = field_fits [OF assms]
  have "unat (of_nat f + of_nat listSize :: uint) = f + listSize"
    using fit(1,3) unat_of_nat_uint [of "f + listSize"] by simp
  moreover have "unat (of_nat (ownerSize s) :: uint) = ownerSize s"
    using fit(3) by (rule unat_of_nat_uint)
  ultimately show ?thesis
    using fit(1) by (simp add: word_less_nat_alt)
qed

subsection \<open>The loops of the arena\<close>

lemma findEmpty_loop_None: "(\<forall>j < length us. us ! j) \<Longrightarrow> findEmpty_loop i us = None"
proof (induction us arbitrary: i)
  case Nil
  then show ?case by simp
next
  case (Cons u us)
  from Cons.prems have "u" by fastforce
  moreover from Cons.prems have "\<forall>j < length us. us ! j" by fastforce
  ultimately show ?case using Cons.IH by simp
qed




subsection \<open>Frames of the list operations\<close>

lemma frame_refl [simp]: "frame s s"
  by (simp add: frame_def)

lemma frame_trans: "frame s s1 \<Longrightarrow> frame s1 s2 \<Longrightarrow> frame s s2"
  by (simp add: frame_def)

lemma frame_wr [simp]: "frame s (wr s p g)"
  by (simp add: frame_def)

lemma frame_log_if [simp]: "frame s (log_if l m s)"
  by (simp add: frame_def)

lemma frame_wf: "frame s s' \<Longrightarrow> wf s \<Longrightarrow> wf s'"
  by (simp add: frame_def wf_def)

lemma frame_layout: "frame s s' \<Longrightarrow> layout_ok s \<Longrightarrow> layout_ok s'"
  by (simp add: frame_def layout_ok_def ownerSize_def)

lemma rd_wr_cases: "rd (wr s p g) q = rd s q \<or> rd (wr s p g) q = g (rd s q)"
proof (cases p)
  case (InSlot i f)
  show ?thesis
  proof (cases q)
    case (InSlot j h)
    show ?thesis
    proof (cases "(i, f) = (j, h)")
      case True
      then show ?thesis
        using \<open>p = InSlot i f\<close> \<open>q = InSlot j h\<close>
        by (cases "i < length (things s)") (simp_all add: rd_def wr_def list_update_beyond)
    next
      case False
      then show ?thesis
        using \<open>p = InSlot i f\<close> \<open>q = InSlot j h\<close> rd_wr_other [of i f j h s g] by simp
    qed
  next
    case (Detached c)
    then show ?thesis by (simp add: rd_def)
  qed
next
  case (Detached c)
  then show ?thesis by (simp add: wr_def rd_def)
qed

lemma bound_ok_wr:
  assumes "\<And>c. bound_ok s c \<Longrightarrow> bound_ok s (g c)" and "bound_ok s (rd s q)"
  shows "bound_ok s (rd (wr s p g) q)"
  using rd_wr_cases [of s p g q] assms by auto

lemma bound_ok_updates [simp]:
  "bound_ok s (c\<lparr>nxt := x\<rparr>) = bound_ok s c" "bound_ok s (c\<lparr>prev := x\<rparr>) = bound_ok s c"
  "bound_ok s (c\<lparr>first := x\<rparr>) = bound_ok s c" "bound_ok s zeroList"
  by (simp_all add: bound_ok_def zeroList_def)

lemma getListDataFromThing_total:
  assumes "wf s" and "layout_ok s" and "arena c"
    and "unat (offset c) \<in> set (listFields (thingType s))"
  shows "\<exists>q. getListDataFromThing s c r = Inr q"
proof (cases "active s r")
  case True
  with assms(1) have "unat (idx r) < length (things s)" by (simp add: active_bound)
  from field_at_field [OF assms(2,4) this] True assms(1,3) show ?thesis
    by (simp add: getListDataFromThing_def get_via_def get_wf)
next
  case False
  from assms(2,4) have "unat (offset c) + listSize \<le> ownerSize s"
    by (simp add: layout_ok_def)
  with False assms(1,3) show ?thesis
    by (simp add: getListDataFromThing_def get_via_def get_wf)
qed

lemma keeps_refl [simp]: "keeps s s"
  by (simp add: keeps_def)

lemma keeps_trans: "keeps s s1 \<Longrightarrow> keeps s1 s2 \<Longrightarrow> keeps s s2"
  using frame_trans by (auto simp: keeps_def)

lemma keeps_wr: "(\<And>c. bound_ok s c \<Longrightarrow> bound_ok s (g c)) \<Longrightarrow> keeps s (wr s p g)"
  by (simp add: keeps_def bound_ok_wr)

lemma keeps_wr_if:
  "(\<And>c. bound_ok s c \<Longrightarrow> bound_ok s (g c)) \<Longrightarrow> keeps s (if b then wr s p g else s)"
  using keeps_wr [of s g p] by simp

lemma keeps_log_if [simp]: "keeps s (log_if l m s)"
  by (simp add: keeps_def)

lemma PopSelf_total:
  assumes "wf s" and "layout_ok s" and "bound_ok s (rd s p)"
  shows "\<exists>s'. PopSelf s p = Inr s' \<and> keeps s s'"
proof (cases "owner (rd s p) = NilRef \<or> first (rd s p) = NilRef")
  case True
  then show ?thesis by (auto simp: PopSelf_def)
next
  case False
  with assms(3) have ar: "arena (rd s p)"
      "unat (offset (rd s p)) \<in> set (listFields (thingType s))"
    by (simp_all add: bound_ok_def)
  obtain nextp where n: "getListDataFromThing s (rd s p) (nxt (rd s p)) = Inr nextp"
    using getListDataFromThing_total [OF assms(1,2) ar] by blast
  obtain firstp where f: "getListDataFromThing s (rd s p) (first (rd s p)) = Inr firstp"
    using getListDataFromThing_total [OF assms(1,2) ar] by blast
  obtain prevp where pv: "getListDataFromThing s (rd s p) (prev (rd s p)) = Inr prevp"
    using getListDataFromThing_total [OF assms(1,2) ar] by blast
  let ?s1 = "wr s prevp (\<lambda>b. b\<lparr>nxt := nxt (rd s p)\<rparr>)"
  let ?s2 = "wr ?s1 nextp (\<lambda>b. b\<lparr>prev := prev (rd ?s1 p)\<rparr>)"
  let ?s3 = "if prev (rd s nextp) = first (rd ?s2 p)
             then wr ?s2 p (\<lambda>b. b\<lparr>first := nxt (rd ?s2 p)\<rparr>) else ?s2"
  let ?s4 = "if prev (rd s nextp) = prev (rd ?s3 firstp)
             then wr ?s3 firstp (\<lambda>b. b\<lparr>prev := prev (rd ?s3 p)\<rparr>) else ?s3"
  have k1: "keeps s ?s1" by (rule keeps_wr) simp
  have k2: "keeps ?s1 ?s2" by (rule keeps_wr) simp
  have k3: "keeps ?s2 ?s3" by (rule keeps_wr_if) simp
  have k4: "keeps ?s3 ?s4" by (rule keeps_wr_if) simp
  have k5: "keeps ?s4 (wr ?s4 p (\<lambda>_. zeroList))" by (rule keeps_wr) simp
  have k0: "keeps s (wr s p (\<lambda>_. zeroList))" by (rule keeps_wr) simp
  have all: "keeps s (wr ?s4 p (\<lambda>_. zeroList))"
    using k1 k2 k3 k4 k5 by (blast intro: keeps_trans)
  show ?thesis
  proof (cases "nxt (rd s p) = prev (rd s nextp)")
    case True
    with False n k0 show ?thesis by (simp add: PopSelf_def)
  next
    case single: False
    have "PopSelf s p = Inr (wr ?s4 p (\<lambda>_. zeroList))"
      using False n f pv single by (simp add: PopSelf_def Let_def)
    with all show ?thesis by blast
  qed
qed

lemma Del_loop_total:
  "wf s \<Longrightarrow> layout_ok s \<Longrightarrow> \<forall>q \<in> set ps. bound_ok s (rd s q)
   \<Longrightarrow> \<exists>s'. Del_loop s ps = Inr s' \<and> keeps s s'"
proof (induction ps arbitrary: s)
  case Nil
  then show ?case by simp
next
  case (Cons p ps)
  show ?case
  proof (cases "rd s p \<noteq> zeroList")
    case True
    from Cons.prems obtain s1 where s1: "PopSelf s p = Inr s1" "keeps s s1"
      using PopSelf_total [of s p] by auto
    from s1(2) Cons.prems have "wf s1" "layout_ok s1" "\<forall>q \<in> set ps. bound_ok s1 (rd s1 q)"
      by (auto simp: keeps_def intro: frame_wf frame_layout)
    then obtain s2 where s2: "Del_loop s1 ps = Inr s2" "keeps s1 s2"
      using Cons.IH by blast
    from s1 s2 True show ?thesis
      by (auto intro: keeps_trans)
  next
    case False
    from Cons.prems obtain s2 where "Del_loop s ps = Inr s2" "keeps s s2"
      using Cons.IH [of s] by auto
    with False show ?thesis by auto
  qed
qed

lemma same_slots_step: "same_slots s s' \<Longrightarrow> slots_step s s'"
  by (simp add: slots_step_def same_slots_def)

lemma slots_step_wf: "slots_step s s' \<Longrightarrow> wf s \<Longrightarrow> wf s'"
  by (simp add: slots_step_def wf_def)

lemma frame_slots: "frame s s' \<Longrightarrow> slots_step s s'"
  by (simp add: frame_def slots_step_def)

lemma PopSelf_holds: "holds (PopSelf s p) (frame s)"
  unfolding PopSelf_def Let_def
  by (simp add: frame_def) (intro holdsI conjI impI; simp)

lemma PopSelf_frame: "PopSelf s p = Inr s' \<Longrightarrow> frame s s'"
  using PopSelf_holds by (rule holdsD)

lemma Del_loop_frame: "Del_loop s ps = Inr s' \<Longrightarrow> frame s s'"
proof (induction ps arbitrary: s)
  case Nil
  then show ?case by simp
next
  case (Cons p ps)
  then show ?case
    by (auto simp: and_then_Inr split: if_splits dest: PopSelf_frame intro: frame_trans)
qed

lemma findEmpty_frame: "findEmpty s = Inr (s', r) \<Longrightarrow> frame s s'"
  by (auto simp: findEmpty_def and_then_Inr split: option.splits)

lemma New_slots: "New s t = Inr (s', r) \<Longrightarrow> slots_step s s'"
  by (auto simp: New_def and_then_Inr store_def slots_step_def frame_def
      dest!: findEmpty_frame split: if_splits)

text \<open>
  \<^verbatim>\<open>Del\<close> of an active reference adds one to the generation counter of its slot, and no
  other counter changes.
\<close>

lemma Del_gens:
  assumes "Del s r = Inr s'"
  shows "slots_step s s'"
    and "generations s' ! i
      = generations s ! i + (if unat (idx r) = i \<and> IsActive s r = Inr True then 1 else 0)"
proof -
  have "slots_step s s' \<and> generations s' ! i
      = generations s ! i + (if unat (idx r) = i \<and> IsActive s r = Inr True then 1 else 0)"
  proof (cases "IsActive s r = Inr True")
    case True
    with assms obtain s1 where s1: "Del_loop s (inside s r) = Inr s1"
      and s': "length (used s') = length (used s1)"
        "generations s' = (generations s1)[unat (idx r) := generations s1 ! unat (idx r) + 1]"
        "maxThings s' = maxThings s1" "length (things s') = length (things s1)"
        "thingType s' = thingType s1" "unat (idx r) < length (generations s1)"
      by (auto simp: Del_def and_then_Inr store_def index_def Let_def split: if_splits)
    from s1 have f: "frame s s1" by (rule Del_loop_frame)
    have "generations s' ! i = generations s ! i + (if unat (idx r) = i then 1 else 0)"
      using s'(2,6) f by (simp add: frame_def)
    then show ?thesis
      using s' f True by (simp add: slots_step_def frame_def)
  next
    case False
    with assms have "s' = log_if Warn ''Tried to Delete inactive Thing'' s"
      by (cases "IsActive s r") (auto simp: Del_def split: if_splits)
    with False show ?thesis by (simp add: slots_step_def)
  qed
  then show "slots_step s s'"
    and "generations s' ! i
      = generations s ! i + (if unat (idx r) = i \<and> IsActive s r = Inr True then 1 else 0)"
    by simp_all
qed

lemma Del_slots: "Del s r = Inr s' \<Longrightarrow> slots_step s s'"
  by (rule Del_gens)

lemma Get_frame: "Get s r = Inr (s', p) \<Longrightarrow> frame s s'"
  by (auto simp: Get_def and_then_Inr split: if_splits)

lemma Init_holds: "holds (Init s p r gap) (frame s)"
  unfolding Init_def Let_def
  by (simp add: frame_def) (intro holdsI conjI impI; simp)

lemma Init_frame: "Init s p r gap = Inr s' \<Longrightarrow> frame s s'"
  using Init_holds by (rule holdsD)

lemma InsertNext_holds: "holds (InsertNext s p r) (same_slots s)"
  unfolding InsertNext_def Let_def
  by (simp add: same_slots_def) (intro holdsI conjI impI; simp)

lemma InsertNext_same_slots: "InsertNext s p r = Inr s' \<Longrightarrow> same_slots s s'"
  using InsertNext_holds by (rule holdsD)

lemma append1_holds: "holds (append1 s p r) (same_slots s)"
  unfolding append1_def Let_def
  by (simp add: same_slots_def log_unchecked_def emit_def) (intro holdsI conjI impI; simp)

lemma append1_same_slots: "append1 s p r = Inr s' \<Longrightarrow> same_slots s s'"
  using append1_holds by (rule holdsD)

lemma slots_step_refl [simp]: "slots_step s s"
  by (simp add: slots_step_def)

lemma slots_step_trans: "slots_step s s1 \<Longrightarrow> slots_step s1 s2 \<Longrightarrow> slots_step s s2"
  by (simp add: slots_step_def)

subsection \<open>Generations along a sequence of calls\<close>

lemma Append_same_slots: "Append s p rs = Inr s' \<Longrightarrow> same_slots s s'"
proof (induction rs arbitrary: s)
  case Nil
  then show ?case by (simp add: same_slots_def)
next
  case (Cons r rs)
  then obtain s1 where s1: "append1 s p r = Inr s1" "Append s1 p rs = Inr s'"
    by (auto simp: and_then_Inr)
  from s1(1) have "same_slots s s1" by (rule append1_same_slots)
  with Cons.IH [OF s1(2)] show ?case by (simp add: same_slots_def)
qed

lemma step_slots: "step s x = Inr s' \<Longrightarrow> slots_step s s'"
proof (cases x)
  case (OpNew t)
  then show "step s x = Inr s' \<Longrightarrow> slots_step s s'"
    by (auto simp: and_then_Inr dest: New_slots)
next
  case (OpDel r)
  then show "step s x = Inr s' \<Longrightarrow> slots_step s s'"
    by (auto dest: Del_slots)
next
  case (OpGet r)
  then show "step s x = Inr s' \<Longrightarrow> slots_step s s'"
    by (auto simp: and_then_Inr dest!: Get_frame frame_slots)
next
  case (OpSetLogger l)
  then show "step s x = Inr s' \<Longrightarrow> slots_step s s'"
    by (auto simp: SetLogger_def slots_step_def)
next
  case (OpInit p r gap)
  then show "step s x = Inr s' \<Longrightarrow> slots_step s s'"
    by (auto dest!: Init_frame frame_slots)
next
  case (OpAppend p rs)
  then show "step s x = Inr s' \<Longrightarrow> slots_step s s'"
    by (auto dest!: Append_same_slots same_slots_step)
next
  case (OpInsertNext p r)
  then show "step s x = Inr s' \<Longrightarrow> slots_step s s'"
    by (auto dest!: InsertNext_same_slots same_slots_step)
next
  case (OpPopSelf p)
  then show "step s x = Inr s' \<Longrightarrow> slots_step s s'"
    by (auto dest!: PopSelf_frame frame_slots)
qed

text \<open>Every state a sequence of calls reaches from a well-formed one is well-formed.\<close>

lemma run_wf: "wf s \<Longrightarrow> run s xs = Inr s' \<Longrightarrow> wf s'"
proof (induction xs arbitrary: s)
  case Nil
  then show ?case by simp
next
  case (Cons x xs)
  then obtain s1 where s1: "step s x = Inr s1" "run s1 xs = Inr s'"
    by (auto simp: and_then_Inr)
  from s1(1) have "slots_step s s1" by (rule step_slots)
  then have "wf s1" using Cons.prems(1) by (rule slots_step_wf)
  then show ?case using s1(2) by (rule Cons.IH)
qed

lemma reachable_wf: "run (NewThings ty n) xs = Inr s \<Longrightarrow> wf s"
  using wf_NewThings by (rule run_wf)

lemma IsActive_generation:
  "IsActive s r = Inr True \<Longrightarrow> generation r = generations s ! unat (idx r)"
  by (auto simp: IsActive_def isAlive_def index_def and_then_Inr split: if_splits)

lemma New_gens: "New s t = Inr (s', r) \<Longrightarrow> generations s' = generations s"
  by (auto simp: New_def and_then_Inr store_def frame_def
      dest!: findEmpty_frame split: if_splits)

text \<open>
  One call changes the generation counter of a slot only by freeing the slot, and then by
  one; so after a sequence of calls the counter has gone up, modulo \<open>2^32\<close>, by the number
  of calls that freed the slot.
\<close>

lemma step_gens:
  assumes "step s x = Inr s'"
  shows "generations s' ! i = generations s ! i + (if frees_slot i s x then 1 else 0)"
proof (cases x)
  case (OpNew t)
  with assms show ?thesis
    by (auto simp: and_then_Inr frees_slot_def dest: New_gens)
next
  case (OpDel r)
  with assms have "Del s r = Inr s'" by simp
  from Del_gens(2) [OF this, of i] OpDel show ?thesis
    by (simp add: frees_slot_def)
next
  case (OpGet r)
  with assms show ?thesis
    by (auto simp: and_then_Inr frees_slot_def frame_def dest!: Get_frame)
next
  case (OpSetLogger l)
  with assms show ?thesis
    by (auto simp: SetLogger_def frees_slot_def)
next
  case (OpInit p r gap)
  with assms show ?thesis
    by (auto simp: frees_slot_def frame_def dest!: Init_frame)
next
  case (OpAppend p rs)
  with assms show ?thesis
    by (auto simp: frees_slot_def same_slots_def dest!: Append_same_slots)
next
  case (OpInsertNext p r)
  with assms show ?thesis
    by (auto simp: frees_slot_def same_slots_def dest!: InsertNext_same_slots)
next
  case (OpPopSelf p)
  with assms show ?thesis
    by (auto simp: frees_slot_def frame_def dest!: PopSelf_frame)
qed

lemma run_frees:
  "run s xs = Inr s' \<Longrightarrow>
   generations s' ! i = generations s ! i + of_nat (frees i s xs)"
proof (induction xs arbitrary: s)
  case Nil
  then show ?case by simp
next
  case (Cons x xs)
  then obtain s1 where s1: "step s x = Inr s1" "run s1 xs = Inr s'"
    by (auto simp: and_then_Inr)
  from step_gens [OF s1(1), of i] Cons.IH [OF s1(2)] s1(1) show ?case
    by simp
qed

lemma run_slots: "run s xs = Inr s' \<Longrightarrow> slots_step s s'"
proof (induction xs arbitrary: s)
  case Nil
  then show ?case by simp
next
  case (Cons x xs)
  then obtain s1 where s1: "step s x = Inr s1" "run s1 xs = Inr s'"
    by (auto simp: and_then_Inr)
  from s1(1) have "slots_step s s1" by (rule step_slots)
  moreover from s1(2) have "slots_step s1 s'" by (rule Cons.IH)
  ultimately show ?case by (rule slots_step_trans)
qed

lemma findEmpty_loop_range: "findEmpty_loop i us = Some j \<Longrightarrow> i \<le> j \<and> j < i + length us"
proof (induction us arbitrary: i)
  case Nil
  then show ?case by simp
next
  case (Cons u us)
  show ?case
  proof (cases u)
    case True
    with Cons.prems have "findEmpty_loop (Suc i) us = Some j" by simp
    from Cons.IH [OF this] show ?thesis by simp
  next
    case False
    with Cons.prems show ?thesis by simp
  qed
qed

lemma New_ref:
  assumes "New s t = Inr (s', r')" and "length (used s) \<le> 2 ^ 32"
  shows "generations s' = generations s
     \<and> (r' = NilRef \<or> generation r' = generations s ! unat (idx r'))"
proof (cases "findEmpty_loop 1 (drop 1 (used s))")
  case None
  with assms(1) show ?thesis
    by (auto simp: New_def findEmpty_def and_then_Inr store_def split: if_splits)
next
  case (Some j)
  from findEmpty_loop_range [OF Some] have "j < 1 + length (drop 1 (used s))" by simp
  with assms(2) have "j < 2 ^ 32" by simp
  then have u: "unat (of_nat j :: u32) = j" by (rule unat_of_nat_u32)
  from assms(1) Some have "generations s' = generations s"
      "r' = \<lparr>idx = of_nat j, generation = generations s ! j\<rparr>"
    by (auto simp: New_def findEmpty_def and_then_Inr store_def index_def split: if_splits)
  with u show ?thesis by simp
qed

lemma Del_active:
  assumes "wf s" and "layout_ok s" and "IsActive s r = Inr True"
    and "\<forall>q \<in> set (inside s r). bound_ok s (rd s q)"
  shows "\<exists>s'. Del s r = Inr s' \<and> wf s' \<and> length (used s') = length (used s)
     \<and> maxThings s' = maxThings s \<and> used s' ! unat (idx r) = False
     \<and> generations s' ! unat (idx r) = generation r + 1"
proof -
  let ?i = "unat (idx r)"
  from assms(1,3) have act: "active s r" by (simp add: IsActive_wf)
  then have i: "?i < length (used s)"
    using assms(1) isNotNil_bound [of s r] by (simp add: active_def)
  from assms(1,2,4) obtain s1 where s1: "Del_loop s (inside s r) = Inr s1" "keeps s s1"
    using Del_loop_total [of s "inside s r"] by blast
  from s1(2) have f: "frame s s1" by (simp add: keeps_def)
  with assms(1) i have b: "?i < length (used s1)" "?i < length (generations s1)"
    "?i < length (things s1)" "0 < length (things s1)"
    by (auto simp: frame_def wf_def)
  let ?s' = "s1\<lparr>insideLists := (insideLists s1)(r := None),
               used := (used s1)[?i := False],
               generations := (generations s1)[?i := generations s1 ! ?i + 1],
               things := (things s1)[?i := things s1 ! 0],
               activeThings := activeThings s1 - 1\<rparr>"
  have d: "Del s r = Inr ?s'"
    using assms(3) s1(1) b by (simp add: Del_def Let_def store_def index_def)
  have "wf ?s'"
    using assms(1) f by (simp add: wf_def frame_def)
  moreover have "generations ?s' ! ?i = generation r + 1"
    using b(2) act f by (simp add: active_def frame_def)
  ultimately show ?thesis
    using d b f by (auto simp: frame_def)
qed

lemma Del_returned:
  assumes "wf s" and "IsActive s r = Inr True" and "Del s r = Inr s'"
  shows "wf s'" and "length (used s') = length (used s)" and "maxThings s' = maxThings s"
    and "used s' ! unat (idx r) = False"
    and "generations s' ! unat (idx r) = generation r + 1"
proof -
  let ?i = "unat (idx r)"
  from assms(2,3) obtain s1 where s1: "Del_loop s (inside s r) = Inr s1"
    and s': "used s' = (used s1)[?i := False]" "?i < length (used s1)"
      "length (generations s') = length (generations s1)"
      "maxThings s' = maxThings s1" "length (things s') = length (things s1)"
    by (auto simp: Del_def and_then_Inr store_def index_def Let_def split: if_splits)
  from s1 have f: "frame s s1" by (rule Del_loop_frame)
  from assms(3) have "slots_step s s'" by (rule Del_slots)
  then show "wf s'" using assms(1) by (rule slots_step_wf)
  from s'(1) f show "length (used s') = length (used s)" by (simp add: frame_def)
  from s'(4) f show "maxThings s' = maxThings s" by (simp add: frame_def)
  from s'(1,2) show "used s' ! ?i = False" by simp
  from Del_gens(2) [OF assms(3), of ?i] assms(2) IsActive_generation [OF assms(2)]
  show "generations s' ! ?i = generation r + 1" by simp
qed

subsection \<open>The members of a list, linked in a ring\<close>

lemma rd_wr:
  "i < length (things s) \<Longrightarrow>
   rd (wr s (InSlot i f) g) (InSlot j h)
     = (if i = j \<and> f = h then g (rd s (InSlot j h)) else rd s (InSlot j h))"
  using rd_wr_same [of i s f g] rd_wr_other [of i f j h s g] by auto

lemma rd_insideLists_update [simp]: "rd (s\<lparr>insideLists := m\<rparr>) p = rd s p"
  by (cases p) (simp_all add: rd_def)

lemma wf_wr [simp]: "wf (wr s p g) = wf s"
  by (simp add: wf_def)

lemma wf_insideLists_update [simp]: "wf (s\<lparr>insideLists := m\<rparr>) = wf s"
  by (simp add: wf_def)

lemma active_wr [simp]: "active (wr s p g) r = active s r"
  by (simp add: active_def isNotNil_def)

lemma active_insideLists_update [simp]: "active (s\<lparr>insideLists := m\<rparr>) r = active s r"
  by (simp add: active_def isNotNil_def)

lemma thingType_insideLists_update [simp]: "thingType (s\<lparr>insideLists := m\<rparr>) = thingType s"
  by simp

lemma getListDataFromThing_active:
  assumes "wf s" and "layout_ok s" and "f \<in> set (listFields (thingType s))"
    and "arena c" and "offset c = of_nat f" and "active s r"
  shows "getListDataFromThing s c r = Inr (InSlot (unat (idx r)) f)"
proof -
  from assms(1,6) have "unat (idx r) < length (things s)" by (rule active_bound)
  from field_at_field [OF assms(2,3) this] assms(1,4,5,6) show ?thesis
    by (simp add: getListDataFromThing_def get_via_def get_wf)
qed

lemma append_rejects_active:
  "wf s \<Longrightarrow> isInitialized c \<Longrightarrow> arena c \<Longrightarrow> active s r \<Longrightarrow> append_rejects s c r = Inr False"
  using isNotNil_bound [of s r]
  by (auto simp: append_rejects_def active_def isNotNil_def isAlive_def index_def wf_def)

lemma active_index_inj:
  assumes "active s x" and "active s y" and "unat (idx x) = unat (idx y)"
  shows "x = y"
proof -
  from assms(3) have "idx x = idx y" by (simp add: word_unat_eq_iff)
  moreover from assms have "generation x = generation y" by (simp add: active_def)
  ultimately show ?thesis by simp
qed

lemma append1_empty:
  assumes "wf s" and "active s r" and "jn = unat (idx r)" and "jn \<noteq> ih"
    and "ih < length (things s)"
    and c: "c = rd s (InSlot ih f)" "isInitialized c" "arena c" "offset c = of_nat f"
       "first c = NilRef" "nxt c = NilRef" "prev c = NilRef"
    and ly: "layout_ok s" "f \<in> set (listFields (thingType s))"
  shows "\<exists>s'. append1 s (InSlot ih f) r = Inr s' \<and> same_slots s s' \<and> wf s'
     \<and> rd s' (InSlot ih f) = c\<lparr>first := r, nxt := r, prev := r\<rparr>
     \<and> nxt (rd s' (InSlot jn f)) = r \<and> prev (rd s' (InSlot jn f)) = r"
proof -
  from assms(1,2,3) have b: "jn < length (things s)"
    using active_bound [of s r] by simp
  have g: "getListDataFromThing s c r = Inr (InSlot jn f)"
    using assms(1,2,3) c ly by (simp add: getListDataFromThing_active)
  have rj: "append_rejects s c r = Inr False"
    using assms(1,2) c by (simp add: append_rejects_active)
  show ?thesis
    unfolding append1_def c(1) [symmetric] rj g
    using b assms(1,4,5) c
    by (simp add: Let_def rd_wr same_slots_def)
qed

lemma append1_link:
  assumes "wf s" and "active s r" and "jn = unat (idx r)"
    and c: "c = rd s (InSlot ih f)" "isInitialized c" "arena c" "offset c = of_nat f"
       "first c = fr" "fr \<noteq> NilRef"
    and "active s fr" and "jf = unat (idx fr)"
    and "prev (rd s (InSlot jf f)) = lr" and "active s lr" and "jl = unat (idx lr)"
    and "ih < length (things s)"
    and ne: "jn \<noteq> ih" "jn \<noteq> jf" "jn \<noteq> jl" "ih \<noteq> jf" "ih \<noteq> jl"
    and ly: "layout_ok s" "f \<in> set (listFields (thingType s))"
  shows "\<exists>s'. append1 s (InSlot ih f) r = Inr s' \<and> same_slots s s' \<and> wf s'
     \<and> rd s' (InSlot ih f) = c
     \<and> nxt (rd s' (InSlot jn f)) = fr \<and> nxt (rd s' (InSlot jl f)) = r
     \<and> prev (rd s' (InSlot jf f)) = r
     \<and> (\<forall>j. j \<noteq> jn \<and> j \<noteq> jl \<longrightarrow> nxt (rd s' (InSlot j f)) = nxt (rd s (InSlot j f)))"
proof -
  from assms(1,2,3) have bn: "jn < length (things s)"
    using active_bound [of s r] by simp
  from assms(1) \<open>active s fr\<close> \<open>jf = unat (idx fr)\<close> have bf: "jf < length (things s)"
    using active_bound [of s fr] by simp
  from assms(1) \<open>active s lr\<close> \<open>jl = unat (idx lr)\<close> have bl: "jl < length (things s)"
    using active_bound [of s lr] by simp
  have rj: "append_rejects s c r = Inr False"
    using assms(1,2) c by (simp add: append_rejects_active)
  have g: "getListDataFromThing s c r = Inr (InSlot jn f)"
    using assms(1,2,3) c ly by (simp add: getListDataFromThing_active)
  have gg: "getListDataFromThing s' c' x = Inr (InSlot (unat (idx x)) f)"
    if "wf s'" "layout_ok s'" "thingType s' = thingType s" "arena c'" "offset c' = of_nat f"
      "active s' x" for s' :: "'a Things" and c' x
    using that ly(2) by (intro getListDataFromThing_active) simp_all
  show ?thesis
    unfolding append1_def c(1) [symmetric] rj g
    using bn bf bl assms(1) c ne ly \<open>active s fr\<close> \<open>jf = unat (idx fr)\<close> \<open>active s lr\<close>
      \<open>jl = unat (idx lr)\<close> \<open>prev (rd s (InSlot jf f)) = lr\<close> \<open>ih < length (things s)\<close>
    by (simp add: Let_def rd_wr same_slots_def gg)
qed

lemma same_slots_active: "same_slots s s' \<Longrightarrow> active s' x = active s x"
  by (simp add: same_slots_def active_def isNotNil_def)

lemma same_slots_refl [simp]: "same_slots s s"
  by (simp add: same_slots_def)

lemma same_slots_trans: "same_slots s s1 \<Longrightarrow> same_slots s1 s2 \<Longrightarrow> same_slots s s2"
  by (simp add: same_slots_def)

lemma active_not_nil: "active s r \<Longrightarrow> r \<noteq> NilRef"
  by (auto simp: active_def isNotNil_def NilRef_def)

lemma append1_linked:
  assumes l: "linked s a f bs" and r: "active s r" "r \<notin> set bs" "r \<noteq> a"
  shows "\<exists>s'. append1 s (InSlot (unat (idx a)) f) r = Inr s' \<and> same_slots s s'
     \<and> linked s' a f (bs @ [r])"
proof -
  let ?ih = "unat (idx a)" and ?jn = "unat (idx r)"
  let ?c = "rd s (InSlot ?ih f)"
  from l have wf: "wf s" and a: "active s a"
    and c: "isInitialized ?c" "arena ?c" "offset ?c = of_nat f"
    and bs: "a \<notin> set bs" "distinct bs" "\<forall>b \<in> set bs. active s b"
    and ly: "layout_ok s" "f \<in> set (listFields (thingType s))"
    by (simp_all add: linked_def)
  have keep: "layout_ok s' \<and> f \<in> set (listFields (thingType s'))" if "same_slots s s'"
    for s' :: "'a Things"
    using that ly by (simp add: same_slots_def layout_ok_def ownerSize_def)
  have ih: "?ih < length (things s)" using wf a by (rule active_bound)
  have nh: "?jn \<noteq> ?ih" using active_index_inj [OF r(1) a] r(3) by auto
  have idx_ne: "unat (idx x) \<noteq> unat (idx y)" if "active s x" "active s y" "x \<noteq> y" for x y
    using active_index_inj [OF that(1,2)] that(3) by auto
  show ?thesis
  proof (cases "bs = []")
    case True
    with l have e: "first ?c = NilRef" "nxt ?c = NilRef" "prev ?c = NilRef"
      by (simp_all add: linked_def)
    from append1_empty [OF wf r(1) refl nh ih refl c e ly] obtain s'
      where s': "append1 s (InSlot ?ih f) r = Inr s'" "same_slots s s'" "wf s'"
        "rd s' (InSlot ?ih f) = ?c\<lparr>first := r, nxt := r, prev := r\<rparr>"
        "nxt (rd s' (InSlot ?jn f)) = r" "prev (rd s' (InSlot ?jn f)) = r"
      by blast
    have "linked s' a f ([] @ [r])"
      using s' a r c keep [OF s'(2)] by (simp add: linked_def same_slots_active)
    with s'(1,2) True show ?thesis by auto
  next
    case False
    let ?fr = "hd bs" and ?lr = "last bs"
    let ?k = "length bs"
    from False l have n: "first ?c = ?fr" "prev (rd s (InSlot (unat (idx ?fr)) f)) = ?lr"
      "\<forall>i < ?k. nxt (rd s (InSlot (unat (idx (bs ! i))) f)) = bs ! (Suc i mod ?k)"
      by (simp_all add: linked_def)
    from False have mem: "?fr \<in> set bs" "?lr \<in> set bs" by simp_all
    with bs have act: "active s ?fr" "active s ?lr" by simp_all
    have fr_nn: "?fr \<noteq> NilRef" using act(1) by (rule active_not_nil)
    from mem r(2) bs(1) have ne0: "r \<noteq> ?fr" "r \<noteq> ?lr" "a \<noteq> ?fr" "a \<noteq> ?lr" by auto
    have ne: "?jn \<noteq> unat (idx ?fr)" "?jn \<noteq> unat (idx ?lr)" "?ih \<noteq> unat (idx ?fr)"
      "?ih \<noteq> unat (idx ?lr)"
      using idx_ne [OF r(1) act(1)] idx_ne [OF r(1) act(2)] idx_ne [OF a act(1)]
        idx_ne [OF a act(2)] ne0 by simp_all
    from append1_link [OF wf r(1) refl refl c n(1) fr_nn act(1) refl n(2) act(2) refl ih nh ne ly]
    obtain s' where s': "append1 s (InSlot ?ih f) r = Inr s'" "same_slots s s'" "wf s'"
        "rd s' (InSlot ?ih f) = ?c"
        "nxt (rd s' (InSlot ?jn f)) = ?fr" "nxt (rd s' (InSlot (unat (idx ?lr)) f)) = r"
        "prev (rd s' (InSlot (unat (idx ?fr)) f)) = r"
        "\<forall>j. j \<noteq> ?jn \<and> j \<noteq> unat (idx ?lr) \<longrightarrow>
            nxt (rd s' (InSlot j f)) = nxt (rd s (InSlot j f))"
      by blast
    have step: "nxt (rd s' (InSlot (unat (idx ((bs @ [r]) ! i))) f))
        = (bs @ [r]) ! (Suc i mod length (bs @ [r]))" if lt: "i < length (bs @ [r])" for i
    proof -
      from lt have "Suc i < ?k \<or> Suc i = ?k \<or> i = ?k" by auto
      then consider "Suc i < ?k" | "Suc i = ?k" | "i = ?k"
        by blast
      then show ?thesis
      proof cases
        case 1
        then have bi: "bs ! i \<in> set bs" "bs ! i \<noteq> ?lr"
          using bs(2) False by (auto simp: last_conv_nth nth_eq_iff_index_eq)
        with bs(3) r have "active s (bs ! i)" "bs ! i \<noteq> r" by auto
        then have "unat (idx (bs ! i)) \<noteq> ?jn" "unat (idx (bs ! i)) \<noteq> unat (idx ?lr)"
          using idx_ne [of "bs ! i" r] idx_ne [of "bs ! i" ?lr] r(1) act(2) bi(2) by simp_all
        with s'(8) have "nxt (rd s' (InSlot (unat (idx (bs ! i))) f))
            = nxt (rd s (InSlot (unat (idx (bs ! i))) f))"
          by simp
        also have "\<dots> = bs ! (Suc i mod ?k)" using n(3) 1 by simp
        finally show ?thesis using 1 by (simp add: nth_append)
      next
        case 2
        then have "i = ?k - 1" by simp
        then have "(bs @ [r]) ! i = ?lr"
          using False by (simp add: nth_append last_conv_nth)
        with s'(6) 2 show ?thesis by (simp add: nth_append)
      next
        case 3
        with s'(5) False show ?thesis by (simp add: nth_append hd_conv_nth)
      qed
    qed
    have "linked s' a f (bs @ [r])"
      using s'(2,3,4,7) a r c bs False n(1) step keep [OF s'(2)]
      by (simp add: linked_def same_slots_active)
    with s'(1,2) show ?thesis by auto
  qed
qed

lemma Append_linked:
  "linked s a f bs \<Longrightarrow> \<forall>r \<in> set cs. active s r \<Longrightarrow> distinct (bs @ cs) \<Longrightarrow> a \<notin> set cs
   \<Longrightarrow> \<exists>s'. Append s (InSlot (unat (idx a)) f) cs = Inr s' \<and> same_slots s s'
         \<and> linked s' a f (bs @ cs)"
proof (induction cs arbitrary: s bs)
  case Nil
  then show ?case by simp
next
  case (Cons r cs)
  from Cons.prems have r: "active s r" "r \<notin> set bs" "r \<noteq> a" by auto
  from append1_linked [OF Cons.prems(1) r] obtain s1
    where s1: "append1 s (InSlot (unat (idx a)) f) r = Inr s1" "same_slots s s1"
      "linked s1 a f (bs @ [r])"
    by blast
  from Cons.prems s1(2) have "\<forall>x \<in> set cs. active s1 x" "distinct ((bs @ [r]) @ cs)"
      "a \<notin> set cs"
    by (simp_all add: same_slots_active)
  from Cons.IH [OF s1(3) this] obtain s'
    where s': "Append s1 (InSlot (unat (idx a)) f) cs = Inr s'" "same_slots s1 s'"
      "linked s' a f ((bs @ [r]) @ cs)"
    by blast
  from s1 s' show ?case
    by (auto intro: same_slots_trans)
qed

lemma Init_linked:
  assumes "wf s" and "active s a" and "rd s (InSlot (unat (idx a)) f) = zeroList"
    and ly: "layout_ok s" "f \<in> set (listFields (thingType s))"
  shows "\<exists>s'. Init s (InSlot (unat (idx a)) f) a gap = Inr s' \<and> same_slots s s'
     \<and> linked s' a f []"
proof -
  let ?h = "InSlot (unat (idx a)) f"
  let ?s' = "wr s ?h (\<lambda>b. b\<lparr>isInitialized := True, owner := a, arena := True,
                               offset := of_nat f\<rparr>)"
  from assms(1,2) have b: "unat (idx a) < length (things s)" by (rule active_bound)
  from assms(2) have nn: "a \<noteq> NilRef" by (rule active_not_nil)
  note ok = offset_accepted [OF ly b]
  have i: "Init s ?h a gap = Inr ?s'"
    using assms(1,2,3) nn ok by (simp add: Init_def get_wf zeroList_def addr_diff)
  have "rd ?s' ?h
      = zeroList\<lparr>isInitialized := True, owner := a, arena := True, offset := of_nat f\<rparr>"
    using b assms(3) by (simp add: rd_wr)
  then have "linked ?s' a f []"
    using assms(1,2) ly by (simp add: linked_def zeroList_def)
  with i show ?thesis by (simp add: same_slots_def)
qed

lemma Each_loop_linked:
  assumes l: "linked s a f bs"
  shows "i < length bs \<Longrightarrow> length bs - i \<le> n \<Longrightarrow>
     Each_loop n s (rd s (InSlot (unat (idx a)) f)) (bs ! i)
       = Inr (map (\<lambda>b. (b, AtSlot (unat (idx b)))) (drop i bs))"
proof (induction n arbitrary: i)
  case 0
  then show ?case by simp
next
  case (Suc n)
  let ?c = "rd s (InSlot (unat (idx a)) f)"
  let ?k = "length bs"
  from Suc.prems have ne: "bs \<noteq> []" by auto
  from l have wf: "wf s" and c: "arena ?c" "offset ?c = of_nat f"
    and bs: "distinct bs" "\<forall>b \<in> set bs. active s b"
    and ly: "layout_ok s" "f \<in> set (listFields (thingType s))"
    by (simp_all add: linked_def)
  from l ne have first: "first ?c = hd bs"
    and nx: "\<forall>i < ?k. nxt (rd s (InSlot (unat (idx (bs ! i))) f)) = bs ! (Suc i mod ?k)"
    by (simp_all add: linked_def)
  from Suc.prems bs have act: "active s (bs ! i)" by simp
  have g: "get_via s ?c (bs ! i) = Inr (AtSlot (unat (idx (bs ! i))))"
    using wf c act by (simp add: get_via_def get_wf)
  have q: "getListDataFromThing s ?c (bs ! i) = Inr (InSlot (unat (idx (bs ! i))) f)"
    using wf ly c act by (rule getListDataFromThing_active)
  have n: "nxt (rd s (InSlot (unat (idx (bs ! i))) f)) = bs ! (Suc i mod ?k)"
    using nx Suc.prems by simp
  show ?case
  proof (cases "Suc i = ?k")
    case True
    then have "bs ! (Suc i mod ?k) = first ?c"
      using first ne by (simp add: hd_conv_nth)
    moreover from True have "drop i bs = [bs ! i]"
      using Suc.prems(1) by (metis Cons_nth_drop_Suc drop_all le_refl)
    ultimately show ?thesis
      using g q n by simp
  next
    case False
    with Suc.prems have lt: "Suc i < ?k" by simp
    then have "bs ! (Suc i mod ?k) = bs ! Suc i" by simp
    moreover have "bs ! Suc i \<noteq> first ?c"
      using first ne lt bs(1) by (simp add: hd_conv_nth nth_eq_iff_index_eq)
    moreover have "Each_loop n s ?c (bs ! Suc i)
        = Inr (map (\<lambda>b. (b, AtSlot (unat (idx b)))) (drop (Suc i) bs))"
      using lt Suc.prems(2) by (intro Suc.IH) simp_all
    moreover have "drop i bs = bs ! i # drop (Suc i) bs"
      using Suc.prems(1) by (simp add: Cons_nth_drop_Suc)
    ultimately show ?thesis
      using g q n by simp
  qed
qed

subsection \<open>Filling an arena\<close>

lemma NewThings_filled: "unat N < 2 ^ 64 - 1 \<Longrightarrow> NewThings ty N = filled ty N [] (unat N)"
  by (simp add: NewThings_def filled_def unat_Suc_uint)

lemma findEmpty_loop_Some:
  "findEmpty_loop i (replicate k True @ False # rest) = Some (i + k)"
  by (induction k arbitrary: i) simp_all

lemma New_filled:
  assumes "Suc (length ts) < 2 ^ 32"
  shows "New (filled ty N ts (Suc r)) t = Inr (filled ty N (ts @ [t]) r, slot_ref (Suc (length ts)))"
proof -
  let ?k = "length ts"
  have u: "unat (1 + of_nat ?k :: u32) = Suc ?k"
    using assms by (rule unat_Suc_u32)
  have f: "findEmpty_loop 1 (drop 1 (used (filled ty N ts (Suc r)))) = Some (Suc ?k)"
    using findEmpty_loop_Some [of 1 ?k "replicate r False"] by (simp add: filled_def)
  have g: "index (generations (filled ty N ts (Suc r))) (Suc ?k) = Inr 0"
    by (simp add: filled_def index_def del: replicate.simps)
  have fe: "findEmpty (filled ty N ts (Suc r)) = Inr (filled ty N ts (Suc r), slot_ref (Suc ?k))"
    using f g by (simp add: findEmpty_def slot_ref_def)
  have us: "(False # replicate ?k True @ replicate (Suc r) False)[Suc ?k := True]
      = False # replicate (Suc ?k) True @ replicate r False"
    by (simp add: list_update_append replicate_append_same)
  have th: "(zeroThing # ts @ replicate (Suc r) zeroThing)[Suc ?k := t]
      = zeroThing # (ts @ [t]) @ replicate r zeroThing"
    by (simp add: list_update_append)
  show ?thesis
    unfolding New_def fe
    using us th by (simp add: store_def slot_ref_def u filled_def)
qed

lemma New_no_free_slot:
  assumes "wf s" and "0 < length (used s)"
    and "\<forall>i. 0 < i \<and> i < length (used s) \<longrightarrow> used s ! i"
  shows "New s thing =
     Inr ((log_if Error ''Ran out of memory, allocate more things in NewThings()'' s)
            \<lparr>used := (used s)[0 := True], things := (things s)[0 := thing],
             activeThings := activeThings s + 1\<rparr>, NilRef)"
proof -
  from assms(2) obtain u us where used: "used s = u # us"
    by (cases "used s") auto
  from assms(1,2) have len: "0 < length (things s)"
    by (simp add: wf_def)
  have "\<forall>j < length us. us ! j"
    using assms(3) by (auto simp: used)
  then have none: "findEmpty_loop 1 (drop 1 (used s)) = None"
    by (simp add: used findEmpty_loop_None)
  show ?thesis
    using none assms(2) len by (simp add: New_def findEmpty_def store_def NilRef_def)
qed

lemma wf_filled: "unat N < 2 ^ 64 - 1 \<Longrightarrow> length ts + r = unat N \<Longrightarrow> wf (filled ty N ts r)"
proof -
  assume a: "unat N < 2 ^ 64 - 1" "length ts + r = unat N"
  have "unat (ucast (N + 1) :: u32) \<le> unat (N + 1)"
    by (simp add: unsigned_ucast_eq take_bit_nat_less_eq_self)
  with a show ?thesis
    by (simp add: wf_def filled_def unat_Suc_uint)
qed

lemma active_filled:
  assumes "unat N < 2 ^ 32 - 1" and "length ts + r = unat N" and "i < length ts"
  shows "active (filled ty N ts r) (slot_ref (Suc i))"
proof -
  have u: "unat (1 + of_nat i :: u32) = Suc i"
    using assms by (intro unat_Suc_u32) simp
  have m: "unat (maxThings (filled ty N ts r)) = Suc (unat N)"
    using assms(1) by (simp add: filled_def maxThings_small)
  have "isNotNil (filled ty N ts r) (slot_ref (Suc i))"
    using assms u m by (simp add: isNotNil_def slot_ref_def word_less_nat_alt)
  moreover have "used (filled ty N ts r) ! Suc i"
    using assms(3) by (simp add: filled_def nth_append)
  moreover have "generations (filled ty N ts r) ! Suc i = 0"
    using assms(3) by (simp add: filled_def del: replicate.simps)
  ultimately show ?thesis
    by (simp add: active_def slot_ref_def u)
qed

lemma News_filled:
  "length ps + length ts < 2 ^ 32 - 1 \<Longrightarrow>
   News (filled ty N ps (length ts + r)) ts =
     Inr (filled ty N (ps @ ts) r, map (\<lambda>i. slot_ref (Suc (length ps + i))) [0..<length ts])"
proof (induction ts arbitrary: ps)
  case Nil
  then show ?case by simp
next
  case (Cons t ts)
  have new: "New (filled ty N ps (Suc (length ts + r))) t
      = Inr (filled ty N (ps @ [t]) (length ts + r), slot_ref (Suc (length ps)))"
    using Cons.prems by (intro New_filled) simp
  have rest: "News (filled ty N (ps @ [t]) (length ts + r)) ts
      = Inr (filled ty N ((ps @ [t]) @ ts) r,
             map (\<lambda>i. slot_ref (Suc (length (ps @ [t]) + i))) [0..<length ts])"
    using Cons.prems by (intro Cons.IH) simp
  show ?case
    using new rest by (simp add: upt_0_Suc_map comp_def del: upt_Suc)
qed

lemma slot_ref_idx: "Suc i < 2 ^ 32 \<Longrightarrow> unat (idx (slot_ref (Suc i))) = Suc i"
  using unat_of_nat_u32 [of "Suc i"] by (simp add: slot_ref_def)

lemma slot_refs_distinct:
  assumes "n < 2 ^ 32 - 1"
  shows "distinct (map (\<lambda>i. slot_ref (Suc i)) [0..<n])"
proof -
  have "inj_on (\<lambda>i. slot_ref (Suc i)) (set [0..<n])"
  proof (rule inj_onI)
    fix i j
    assume a: "i \<in> set [0..<n]" "j \<in> set [0..<n]" "slot_ref (Suc i) = slot_ref (Suc j)"
    from a(1,2) have "i < n" "j < n" by simp_all
    with assms have "Suc i < 2 ^ 32" "Suc j < 2 ^ 32" by linarith+
    then have "unat (idx (slot_ref (Suc i))) = Suc i" "unat (idx (slot_ref (Suc j))) = Suc j"
      by (simp_all add: slot_ref_idx)
    with a(3) have "Suc i = Suc j" by metis
    then show "i = j" by simp
  qed
  then show ?thesis by (simp add: distinct_map)
qed

lemma slot_refs_not_nil:
  assumes "n < 2 ^ 32 - 1"
  shows "NilRef \<notin> set (map (\<lambda>i. slot_ref (Suc i)) [0..<n])"
proof
  assume "NilRef \<in> set (map (\<lambda>i. slot_ref (Suc i)) [0..<n])"
  then obtain i where i: "i < n" "NilRef = slot_ref (Suc i)" by auto
  from i(1) assms have "Suc i < 2 ^ 32" by linarith
  then have "unat (idx (slot_ref (Suc i))) = Suc i"
    by (rule slot_ref_idx)
  moreover from i(2) have "idx (slot_ref (Suc i)) = idx NilRef" by simp
  ultimately show False by (simp add: NilRef_def)
qed

subsection \<open>One slot, freed over and over\<close>

lemma one_slot_start: "NewThings ty 1 = one_slot ty 0 False 0 zeroThing"
  by (simp add: NewThings_def one_slot_def replicate_numeral)

lemma one_slot_New:
  "New (one_slot ty g False a zeroThing) t = Inr (one_slot ty g True (a + 1) t, \<lparr>idx = 1, generation = g\<rparr>)"
  by (simp add: one_slot_def arena_defs)

lemma one_slot_Del:
  "Del (one_slot ty g True a t) \<lparr>idx = 1, generation = g\<rparr> = Inr (one_slot ty (g + 1) False (a - 1) zeroThing)"
  by (simp add: one_slot_def arena_defs Del_def inside_def)

lemma one_slot_churn:
  "churn n (one_slot ty g False a zeroThing) t = Inr (one_slot ty (g + of_nat n) False a zeroThing)"
proof (induction n arbitrary: g)
  case 0
  then show ?case by simp
next
  case (Suc n)
  have "churn (Suc n) (one_slot ty g False a zeroThing) t = churn n (one_slot ty (g + 1) False a zeroThing) t"
    by (simp add: one_slot_New one_slot_Del)
  also have "\<dots> = Inr (one_slot ty (g + 1 + of_nat n) False a zeroThing)"
    by (rule Suc.IH)
  finally show ?case by (simp add: add.assoc)
qed

subsection \<open>The concrete arena, step by step\<close>

lemma scn0_eq: "NewThings itemType 3 = scn0"
  by (simp add: NewThings_def scn0_def scn_def replicate_numeral)

lemma scn1_eq: "New scn0 tA = Inr (scn1, refA)"
  by (simp add: scn0_def scn1_def scn_defs arena_defs)

lemma scn2_eq: "New scn1 tB = Inr (scn2, refB)"
  by (simp add: scn1_def scn2_def scn_defs arena_defs)

lemma scn3_eq: "New scn2 tC = Inr (scn3, refC)"
  by (simp add: scn2_def scn3_def scn_defs arena_defs)

lemma scn4_eq: "Init scn3 (InSlot 1 0) refA gap = Inr scn4"
  by (simp add: scn3_def scn4_def scn_defs arena_defs list_defs
      cong: and_then_weak_cong let_weak_cong)

lemma scn5_eq: "append1 scn4 (InSlot 1 0) refB = Inr scn5"
  by (simp add: scn4_def scn5_def scn_defs arena_defs list_defs
      cong: and_then_weak_cong let_weak_cong)

lemma scn6_eq: "append1 scn5 (InSlot 1 0) refC = Inr scn6"
  by (simp add: scn5_def scn6_def scn_defs arena_defs list_defs
      cong: and_then_weak_cong let_weak_cong)

lemma scn6_Append: "Append scn4 (InSlot 1 0) [refB, refC] = Inr scn6"
  using scn5_eq scn6_eq by simp

lemma scn6_Each: "Each 5 scn6 (InSlot 1 0) = Inr (scn6, [(refB, AtSlot 2), (refC, AtSlot 3)])"
  by (simp add: scn6_def scn_defs arena_defs list_defs
      cong: and_then_weak_cong let_weak_cong)

lemma scn6_Count: "Count 5 scn6 (InSlot 1 0) = Inr (scn6, 2)"
  using scn6_Each by (simp add: Count_def scn6_def scn_defs rd_def)

lemma scn7_eq: "Del scn6 refB = Inr scn7"
  by (simp add: scn6_def scn7_def scn_defs arena_defs list_defs fun_upd_twist
      cong: and_then_weak_cong let_weak_cong)

lemma scn7_loop_nil: "Each_loop n scn7 (rd scn7 (InSlot 1 0)) NilRef = Inl OutOfFuel"
  by (induction n) (simp_all add: scn7_def scn_defs arena_defs list_defs
      cong: and_then_weak_cong let_weak_cong)

lemma scn7_loop: "Each_loop n scn7 (rd scn7 (InSlot 1 0)) refB = Inl OutOfFuel"
proof (cases n)
  case 0
  then show ?thesis by simp
next
  case (Suc m)
  have "Each_loop m scn7 (rd scn7 (InSlot 1 0)) NilRef = Inl OutOfFuel"
    by (rule scn7_loop_nil)
  then show ?thesis
    by (simp add: Suc scn7_def scn_defs arena_defs list_defs
      cong: and_then_weak_cong let_weak_cong)
qed

lemma scn7_Count: "Count n scn7 (InSlot 1 0) = Inl OutOfFuel"
  using scn7_loop [of n]
  by (simp add: Count_def Each_def) (simp add: scn7_def scn_defs rd_def)

text \<open>
  After \<^verbatim>\<open>PopSelf\<close> on B, the only member, B's list field is the zero list, and the list
  field of the owner A is as it was: its \<^verbatim>\<open>first\<close> is still B, whose \<^verbatim>\<open>next\<close> is now
  nil, and the traversal of A's list does not come back to \<^verbatim>\<open>first\<close>.
\<close>

lemma scn5_pop_eq: "PopSelf scn5 (InSlot 2 0) = Inr scn5_pop"
  by (simp add: scn5_def scn5_pop_def scn_defs arena_defs list_defs
      cong: and_then_weak_cong let_weak_cong)

lemma scn5_pop_loop_nil: "Each_loop n scn5_pop (rd scn5_pop (InSlot 1 0)) NilRef = Inl OutOfFuel"
  by (induction n) (simp_all add: scn5_pop_def scn_defs arena_defs list_defs
      cong: and_then_weak_cong let_weak_cong)

lemma scn5_pop_head:
  "rd scn5_pop (InSlot 2 0) = zeroList \<and> rd scn5_pop (InSlot 1 0) = rd scn5 (InSlot 1 0)
   \<and> first (rd scn5_pop (InSlot 1 0)) = refB
   \<and> Count n scn5_pop (InSlot 1 0) = Inl OutOfFuel"
proof -
  have "Each_loop n scn5_pop (rd scn5_pop (InSlot 1 0)) refB = Inl OutOfFuel"
  proof (cases n)
    case 0
    then show ?thesis by simp
  next
    case (Suc m)
    have "Each_loop m scn5_pop (rd scn5_pop (InSlot 1 0)) NilRef = Inl OutOfFuel"
      by (rule scn5_pop_loop_nil)
    then show ?thesis
      by (simp add: Suc scn5_pop_def scn_defs arena_defs list_defs
      cong: and_then_weak_cong let_weak_cong)
  qed
  then have "Count n scn5_pop (InSlot 1 0) = Inl OutOfFuel"
    by (simp add: Count_def Each_def) (simp add: scn5_pop_def scn_defs rd_def)
  moreover have "rd scn5_pop (InSlot 2 0) = zeroList"
      "rd scn5_pop (InSlot 1 0) = rd scn5 (InSlot 1 0)" "first (rd scn5_pop (InSlot 1 0)) = refB"
    by (simp_all add: scn5_pop_def scn5_def scn_defs rd_def)
  ultimately show ?thesis by simp
qed

lemma wf_scn1: "wf scn1"
  by (simp add: wf_def scn1_def scn_def)

lemma wf_scn3: "wf scn3"
  by (simp add: wf_def scn3_def scn_def)

lemma wf_scn5: "wf scn5"
  by (simp add: wf_def scn5_def scn_def)


lemma wf_scn6: "wf scn6"
  by (simp add: wf_def scn6_def scn_def)

lemma layout_ok_scn3: "layout_ok scn3"
  by (simp add: layout_ok_def ownerSize_def listSize_def scn3_def scn_def itemType_def)

lemma layout_ok_scn6: "layout_ok scn6"
  by (simp add: layout_ok_def ownerSize_def listSize_def scn6_def scn_def itemType_def)

lemma scn8_eq: "New scn7 tB = Inr (scn8, \<lparr>idx = 2, generation = 1\<rparr>)"
  by (simp add: scn7_def scn8_def scn_defs arena_defs)

subsection \<open>A wrong owner that passes the check\<close>

text \<open>
  When the list field ends where the record ends, \<^verbatim>\<open>Init\<close> on the list of slot 1 with
  the reference to slot 2 as owner computes the offset \<open>72 - 128\<close>, which wraps to
  \<open>2^64 - 56\<close>; the sum \<^verbatim>\<open>curr.offset+listSize\<close> wraps to 0 and the check lets it pass.
  The list is then bound to an owner that does not hold it, with an offset that leads from
  a record to the list field of the slot before it, and from a fresh zero value to memory
  that is not part of it. With the owner in the slot before, or with a list field that is
  not the last of the record, the same call is refused.
\<close>

lemma Init_binds_next_slot:
  "Init tail3 (InSlot 1 8) refB gap = Inr tail4"
  "rd tail4 (InSlot 1 8)
     = zeroList\<lparr>isInitialized := True, owner := refB, arena := True, offset := - 56\<rparr>"
  "getListDataFromThing tail4 (rd tail4 (InSlot 1 8)) refC = Inr (InSlot 2 8)"
  "getListDataFromThing tail4 (rd tail4 (InSlot 1 8)) \<lparr>idx = 1, generation = 7\<rparr> = Inl Stray"
  by (simp_all add: tail3_def tail4_def tailType_def scn3_def scn_defs arena_defs list_defs
      cong: and_then_weak_cong let_weak_cong)

lemma Init_refuses_other_slots:
  "Init tail3 (InSlot 2 8) refA gap
     = Inr (emit Error ''Incorrect owner ThingRef passed'' (wr tail3 (InSlot 2 8) (\<lambda>_. zeroList)))"
  "Init scn3 (InSlot 1 0) refB gap
     = Inr (emit Error ''Incorrect owner ThingRef passed'' (wr scn3 (InSlot 1 0) (\<lambda>_. zeroList)))"
  by (simp_all add: tail3_def tailType_def scn3_def scn_defs arena_defs list_defs
      cong: and_then_weak_cong let_weak_cong)

section \<open>The claims\<close>

text \<open>
  C1 (as the code has it). For an active reference \<open>r\<close> in a well-formed arena of at most
  \<open>2^32\<close> slots: \<^verbatim>\<open>Del(r)\<close> returns when the lists \<open>r\<close> is in are bound to the
  records that hold them, in memory laid out as Go lays it out. Whenever it returns,
  \<^verbatim>\<open>IsActive(r)\<close> is false afterwards and \<^verbatim>\<open>Get(r)\<close> gives a zero record after its
  warning; the generation counter of the slot has gone up by one modulo \<open>2^32\<close> and
  differs from the generation of \<open>r\<close>. After any calls of the package that follow and
  return (a call that reaches, through a list bound to a wrong owner, memory that is not a
  record of the arena stops with \<open>Stray\<close>), the counter is the generation of \<open>r\<close> plus one
  plus the number of times the slot has been freed since, modulo \<open>2^32\<close>; as long as that number is below \<open>2^32 - 1\<close>, \<open>r\<close>
  is not active, and a \<^verbatim>\<open>New\<close> that reuses the slot returns a reference of another
  generation and does not make \<open>r\<close> active.
\<close>

theorem Del_invalidates:
  assumes "wf s" and "length (used s) \<le> 2 ^ 32" and "IsActive s r = Inr True"
  shows "(layout_ok s \<and> (\<forall>q \<in> set (inside s r). bound_ok s (rd s q))
            \<longrightarrow> (\<exists>s'. Del s r = Inr s'))
     \<and> (\<forall>s'. Del s r = Inr s' \<longrightarrow>
           IsActive s' r = Inr False
           \<and> Get s' r = Inr (log_if Warn ''Derefence of NilRef.'' s', AtZero)
           \<and> load (log_if Warn ''Derefence of NilRef.'' s') AtZero = zeroThing
           \<and> generations s' ! unat (idx r) = generations s ! unat (idx r) + 1
           \<and> generations s' ! unat (idx r) \<noteq> generation r
           \<and> (\<forall>ops s2. run s' ops = Inr s2 \<longrightarrow>
                 generations s2 ! unat (idx r)
                   = generation r + 1 + of_nat (frees (unat (idx r)) s' ops)
                 \<and> (frees (unat (idx r)) s' ops < 2 ^ 32 - 1 \<longrightarrow>
                       IsActive s2 r = Inr False
                       \<and> (\<forall>t s3 r'. New s2 t = Inr (s3, r') \<and> idx r' = idx r \<longrightarrow>
                             generation r' \<noteq> generation r
                             \<and> IsActive s3 r = Inr False))))"
proof -
  let ?i = "unat (idx r)"
  have returns: "\<exists>s'. Del s r = Inr s'"
    if "layout_ok s" "\<forall>q \<in> set (inside s r). bound_ok s (rd s q)"
    using Del_active [OF assms(1) that(1) assms(3) that(2)] by blast
  have after: "IsActive s' r = Inr False
      \<and> Get s' r = Inr (log_if Warn ''Derefence of NilRef.'' s', AtZero)
      \<and> load (log_if Warn ''Derefence of NilRef.'' s') AtZero = zeroThing
      \<and> generations s' ! ?i = generations s ! ?i + 1
      \<and> generations s' ! ?i \<noteq> generation r
      \<and> (\<forall>ops s2. run s' ops = Inr s2 \<longrightarrow>
            generations s2 ! ?i = generation r + 1 + of_nat (frees ?i s' ops)
            \<and> (frees ?i s' ops < 2 ^ 32 - 1 \<longrightarrow>
                  IsActive s2 r = Inr False
                  \<and> (\<forall>t s3 r'. New s2 t = Inr (s3, r') \<and> idx r' = idx r \<longrightarrow>
                        generation r' \<noteq> generation r \<and> IsActive s3 r = Inr False)))"
    if del: "Del s r = Inr s'" for s'
  proof -
    note s' = Del_returned [OF assms(1,3) del]
    from assms(3) have g: "generation r = generations s ! ?i"
      by (rule IsActive_generation)
    from assms(1,3) have nn: "isNotNil s r"
      by (simp add: IsActive_wf active_def)
    have inactive: "\<not> active s' r"
      using s'(4) by (simp add: active_def)
    have later: "generations s2 ! ?i = generation r + 1 + of_nat (frees ?i s' ops)
        \<and> (frees ?i s' ops < 2 ^ 32 - 1 \<longrightarrow>
              IsActive s2 r = Inr False
              \<and> (\<forall>t s3 r'. New s2 t = Inr (s3, r') \<and> idx r' = idx r \<longrightarrow>
                    generation r' \<noteq> generation r \<and> IsActive s3 r = Inr False))"
      if ops: "run s' ops = Inr s2" for ops s2
    proof -
      let ?k = "frees ?i s' ops"
      from run_frees [OF ops, of ?i] s'(5)
      have count: "generations s2 ! ?i = generation r + 1 + of_nat ?k"
        by simp
      from s'(1) ops have wf2: "wf s2" by (rule run_wf)
      from ops have "slots_step s' s2" by (rule run_slots)
      with s'(2) assms(2) have len: "length (used s2) \<le> 2 ^ 32"
        by (simp add: slots_step_def)
      have stale: "IsActive s2 r = Inr False
          \<and> (\<forall>t s3 r'. New s2 t = Inr (s3, r') \<and> idx r' = idx r \<longrightarrow>
                generation r' \<noteq> generation r \<and> IsActive s3 r = Inr False)"
        if few: "?k < 2 ^ 32 - 1"
      proof -
        have neq: "generations s2 ! ?i \<noteq> generation r"
        proof
          assume "generations s2 ! ?i = generation r"
          with count have "(of_nat (Suc ?k) :: u32) = 0" by simp
          moreover from few have "0 < Suc ?k" "Suc ?k < 2 ^ 32" by simp_all
          ultimately show False using of_nat_u32_nonzero [of "Suc ?k"] by simp
        qed
        then have "\<not> active s2 r" by (auto simp: active_def)
        with wf2 have now: "IsActive s2 r = Inr False" by (simp add: IsActive_wf)
        have "generation r' \<noteq> generation r \<and> IsActive s3 r = Inr False"
          if new: "New s2 t = Inr (s3, r')" "idx r' = idx r" for t s3 r'
        proof -
          from New_ref [OF new(1) len] have n: "generations s3 = generations s2"
              "r' = NilRef \<or> generation r' = generations s2 ! unat (idx r')"
            by simp_all
          from nn new(2) have "r' \<noteq> NilRef"
            by (auto simp: isNotNil_def NilRef_def)
          with n(2) new(2) neq have "generation r' \<noteq> generation r" by simp
          moreover from new(1) have "slots_step s2 s3" by (rule New_slots)
          then have "wf s3" using wf2 by (rule slots_step_wf)
          moreover from n(1) neq have "\<not> active s3 r" by (auto simp: active_def)
          ultimately show ?thesis by (simp add: IsActive_wf)
        qed
        with now show ?thesis by blast
      qed
      with count show ?thesis by blast
    qed
    have "IsActive s' r = Inr False"
      using s'(1) inactive by (simp add: IsActive_wf)
    moreover have "Get s' r = Inr (log_if Warn ''Derefence of NilRef.'' s', AtZero)"
      using s'(1) inactive by (simp add: Get_wf)
    moreover have "generations s' ! ?i = generations s ! ?i + 1"
      using s'(5) g by simp
    moreover have "generations s' ! ?i \<noteq> generation r"
      using s'(5) by simp
    moreover have "load (log_if Warn ''Derefence of NilRef.'' s') AtZero = zeroThing"
      by (simp add: load_def)
    ultimately show ?thesis
      using later by blast
  qed
  from returns after show ?thesis by blast
qed

text \<open>
  \<^verbatim>\<open>Del(B)\<close> in the arena \<open>scn6\<close>, where B is in A's list, and \<^verbatim>\<open>New\<close> of B's record
  again, which reuses the slot.
\<close>

theorem Del_invalidates_witness:
  "Del scn6 refB = Inr scn7
   \<and> IsActive scn6 refB = Inr True \<and> IsActive scn7 refB = Inr False
   \<and> Get scn7 refB = Inr (emit Warn ''Derefence of NilRef.'' scn7, AtZero)
   \<and> generations scn6 ! 2 = 0 \<and> generations scn7 ! 2 = 1
   \<and> New scn7 tB = Inr (scn8, \<lparr>idx = 2, generation = 1\<rparr>)
   \<and> IsActive scn8 refB = Inr False"
proof -
  have a: "IsActive scn6 refB = Inr True"
    by (simp add: scn6_def scn_defs arena_defs)
  have l: "length (used scn6) \<le> 2 ^ 32"
    by (simp add: scn6_def scn_def)
  have b: "\<forall>q \<in> set (inside scn6 refB). bound_ok scn6 (rd scn6 q)"
    by (simp add: scn6_def scn_defs inside_def rd_def bound_ok_def)
  have i: "unat (idx refB) = 2" "generation refB = 0" "idx \<lparr>idx = 2, generation = 1\<rparr> = idx refB"
    by (simp_all add: refB_def)
  have g: "generations scn6 ! 2 = 0" "logger scn7"
    by (simp_all add: scn6_def scn7_def scn_def)
  note del = Del_invalidates [OF wf_scn6 l a]
  from del layout_ok_scn6 b obtain s' where d: "Del scn6 refB = Inr s'"
    by blast
  from del d have s': "IsActive s' refB = Inr False"
      "Get s' refB = Inr (log_if Warn ''Derefence of NilRef.'' s', AtZero)"
      "generations s' ! unat (idx refB) = generations scn6 ! unat (idx refB) + 1"
      "\<forall>ops s2. run s' ops = Inr s2 \<longrightarrow>
           generations s2 ! unat (idx refB)
             = generation refB + 1 + of_nat (frees (unat (idx refB)) s' ops)
           \<and> (frees (unat (idx refB)) s' ops < 2 ^ 32 - 1 \<longrightarrow>
                 IsActive s2 refB = Inr False
                 \<and> (\<forall>t s3 r'. New s2 t = Inr (s3, r') \<and> idx r' = idx refB \<longrightarrow>
                       generation r' \<noteq> generation refB \<and> IsActive s3 refB = Inr False))"
    by blast+
  from d scn7_eq have e: "s' = scn7" by simp
  have r0: "run s' [] = Inr s'" and f0: "frees (unat (idx refB)) s' [] < 2 ^ 32 - 1"
    by simp_all
  from s'(4) r0 f0
  have "\<forall>t s3 r'. New s' t = Inr (s3, r') \<and> idx r' = idx refB \<longrightarrow>
      generation r' \<noteq> generation refB \<and> IsActive s3 refB = Inr False"
    by blast
  with scn8_eq e i(3) have n: "IsActive scn8 refB = Inr False"
    by blast
  from d s'(1-3) e a g i(1,2) scn8_eq n show ?thesis
    by (simp add: log_if_def)
qed

text \<open>
  C1 as stated says \<open>r\<close> never again resolves to a new record. The generation counter is a
  \<^verbatim>\<open>uint32\<close>: in the arena of capacity 1, A is allocated as \<open>(1, 0)\<close> and freed, the slot
  is allocated and freed \<open>2^32 - 1\<close> more times, and its generation is 0 again; the next
  \<^verbatim>\<open>New\<close> stores B and returns \<open>(1, 0)\<close>, so that the reference kept from A is active and
  \<^verbatim>\<open>Get\<close> of it is B's record.
\<close>

theorem generation_wraps:
  "New (NewThings itemType 1) tA = Inr (one_slot itemType 0 True 1 tA, refA)
   \<and> IsActive (one_slot itemType 0 True 1 tA) refA = Inr True
   \<and> Del (one_slot itemType 0 True 1 tA) refA = Inr (one_slot itemType 1 False 0 zeroThing)
   \<and> IsActive (one_slot itemType 1 False 0 zeroThing) refA = Inr False
   \<and> churn 4294967295 (one_slot itemType 1 False 0 zeroThing) tA = Inr (one_slot itemType 0 False 0 zeroThing)
   \<and> New (one_slot itemType 0 False 0 zeroThing) tB = Inr (one_slot itemType 0 True 1 tB, refA)
   \<and> IsActive (one_slot itemType 0 True 1 tB) refA = Inr True
   \<and> Get (one_slot itemType 0 True 1 tB) refA = Inr (one_slot itemType 0 True 1 tB, AtSlot 1)
   \<and> load (one_slot itemType 0 True 1 tB) (AtSlot 1) = tB"
proof -
  have n1: "New (NewThings itemType 1) tA = Inr (one_slot itemType 0 True 1 tA, refA)"
    using one_slot_New [of itemType 0 0 tA] by (simp add: one_slot_start refA_def)
  have a1: "IsActive (one_slot itemType 0 True 1 tA) refA = Inr True"
    by (simp add: one_slot_def refA_def arena_defs)
  have d1: "Del (one_slot itemType 0 True 1 tA) refA = Inr (one_slot itemType 1 False 0 zeroThing)"
    using one_slot_Del [of itemType 0 1 tA] by (simp add: refA_def)
  have a2: "IsActive (one_slot itemType 1 False 0 zeroThing) refA = Inr False"
    by (simp add: one_slot_def refA_def arena_defs)
  have w: "(1 :: u32) + of_nat 4294967295 = 0"
    by simp
  have c: "churn 4294967295 (one_slot itemType 1 False 0 zeroThing) tA = Inr (one_slot itemType 0 False 0 zeroThing)"
    using one_slot_churn [of 4294967295 itemType 1 0 tA] by (simp only: w)
  have n2: "New (one_slot itemType 0 False 0 zeroThing) tB = Inr (one_slot itemType 0 True 1 tB, refA)"
    using one_slot_New [of itemType 0 0 tB] by (simp add: refA_def)
  have a3: "IsActive (one_slot itemType 0 True 1 tB) refA = Inr True"
    by (simp add: one_slot_def refA_def arena_defs)
  have g: "Get (one_slot itemType 0 True 1 tB) refA = Inr (one_slot itemType 0 True 1 tB, AtSlot 1)"
    by (simp add: one_slot_def refA_def arena_defs)
  have l: "load (one_slot itemType 0 True 1 tB) (AtSlot 1) = tB"
    by (simp add: one_slot_def load_def)
  show ?thesis
    using n1 a1 d1 a2 c n2 a3 g l by simp
qed

text \<open>
  C2 (the code where the claim fails). \<^verbatim>\<open>Del(r)\<close> is to take \<open>r\<close> out of every list it is
  in: a list that counted \<open>k\<close> members counts \<open>k - 1\<close> afterwards and no longer yields \<open>r\<close>.
  In the concrete arena B is the first member of A's list, which counts 2. \<^verbatim>\<open>Del(B)\<close>
  runs \<^verbatim>\<open>PopSelf\<close> on B's own list field, where ``move head'' assigns \<^verbatim>\<open>curr.first\<close> of
  the field that is cleared two statements later; the list field of the owner A still has
  \<^verbatim>\<open>first = B\<close>. Its \<^verbatim>\<open>Each\<close> then starts at the freed B, goes on to \<^verbatim>\<open>NilRef\<close> and
  never comes back to \<^verbatim>\<open>first\<close>: with any fuel the count runs out of fuel.
\<close>

theorem Del_first_member_leaves_head:
  "Count 5 scn6 (InSlot 1 0) = Inr (scn6, 2)
   \<and> Del scn6 refB = Inr scn7
   \<and> first (rd scn7 (InSlot 1 0)) = refB
   \<and> IsActive scn7 refB = Inr False
   \<and> (\<forall>n. Count n scn7 (InSlot 1 0) = Inl OutOfFuel)"
proof -
  have "first (rd scn7 (InSlot 1 0)) = refB"
    by (simp add: scn7_def scn_defs rd_def)
  moreover have "IsActive scn7 refB = Inr False"
    by (simp add: scn7_def scn_defs arena_defs)
  ultimately show ?thesis
    using scn6_Count scn7_eq scn7_Count by simp
qed

text \<open>
  C3 (as the code has it). In the arena of capacity 3 with A, B and C allocated, after
  \<^verbatim>\<open>Init\<close> of A's list field (at byte offset 0) with owner A and \<^verbatim>\<open>Append(B, C)\<close>
  on it, \<^verbatim>\<open>Count()\<close>
  returns 2 and \<^verbatim>\<open>Each()\<close> yields B and then C: the owner is the holder of the list, not
  a member of it.
\<close>

theorem scenario_Count_Each:
  "NewThings itemType 3 = scn0
   \<and> New scn0 tA = Inr (scn1, refA) \<and> New scn1 tB = Inr (scn2, refB)
   \<and> New scn2 tC = Inr (scn3, refC)
   \<and> Init scn3 (InSlot (unat (idx refA)) 0) refA gap = Inr scn4
   \<and> Append scn4 (InSlot (unat (idx refA)) 0) [refB, refC] = Inr scn6
   \<and> Count 5 scn6 (InSlot (unat (idx refA)) 0) = Inr (scn6, 2)
   \<and> Each 5 scn6 (InSlot (unat (idx refA)) 0) = Inr (scn6, [(refB, AtSlot 2), (refC, AtSlot 3)])
   \<and> load scn6 (AtSlot 2) = with_list tB (node refB refC refC)
   \<and> load scn6 (AtSlot 3) = with_list tC (node refB refB refB)"
proof -
  have "unat (idx refA) = 1"
    by (simp add: refA_def)
  moreover have "load scn6 (AtSlot 2) = with_list tB (node refB refC refC)"
    by (simp add: load_def scn6_def scn_def)
  moreover have "load scn6 (AtSlot 3) = with_list tC (node refB refB refB)"
    by (simp add: load_def scn6_def scn_def)
  ultimately show ?thesis
    using scn0_eq scn1_eq scn2_eq scn3_eq scn4_eq scn6_Append scn6_Count scn6_Each
    by simp
qed

text \<open>
  C3 as stated expects \<^verbatim>\<open>Count() == 3\<close> and A as the first pair of \<^verbatim>\<open>Each()\<close>; in the
  same arena neither holds.
\<close>

theorem scenario_Count_not_3:
  "Append scn4 (InSlot 1 0) [refB, refC] = Inr scn6
   \<and> Count 5 scn6 (InSlot 1 0) \<noteq> Inr (scn6, 3)
   \<and> Each 5 scn6 (InSlot 1 0)
       \<noteq> Inr (scn6, [(refA, AtSlot 1), (refB, AtSlot 2), (refC, AtSlot 3)])"
  using scn6_Append scn6_Count scn6_Each by simp

text \<open>
  C4 (as the code has it). For a capacity \<open>N < 2^32 - 1\<close> and any type of record: the
  first \<open>N\<close> calls of
  \<^verbatim>\<open>New\<close> on the new arena return \<open>N\<close> distinct references, none of them nil, each
  active from the call that returned it on; one more \<^verbatim>\<open>New\<close> returns the nil reference,
  and after it each of the \<open>N\<close> references is still active and \<^verbatim>\<open>Get\<close> of it points to
  the record stored for it.
\<close>

theorem New_until_exhausted:
  assumes "unat N < 2 ^ 32 - 1" and "length ts = unat N"
  shows "\<exists>s refs. News (NewThings ty N) ts = Inr (s, refs)
     \<and> length refs = unat N \<and> distinct refs \<and> NilRef \<notin> set refs
     \<and> (\<forall>k \<le> unat N. \<exists>sk. News (NewThings ty N) (take k ts) = Inr (sk, take k refs)
           \<and> (\<forall>i < k. IsActive sk (refs ! i) = Inr True))
     \<and> (\<exists>s'. New s t = Inr (s', NilRef)
           \<and> (\<forall>i < unat N. IsActive s' (refs ! i) = Inr True
                 \<and> Get s' (refs ! i) = Inr (s', AtSlot (Suc i))
                 \<and> load s' (AtSlot (Suc i)) = ts ! i))"
proof -
  let ?n = "unat N"
  let ?refs = "map (\<lambda>i. slot_ref (Suc i)) [0..<?n]"
  let ?s = "filled ty N ts 0"
  let ?s' = "(log_if Error ''Ran out of memory, allocate more things in NewThings()'' ?s)
               \<lparr>used := (used ?s)[0 := True], things := (things ?s)[0 := t],
                activeThings := activeThings ?s + 1\<rparr>"
  from assms(1) have big: "?n < 2 ^ 64 - 1" by simp
  have start: "NewThings ty N = filled ty N [] ?n"
    using big by (rule NewThings_filled)
  have prefix: "News (NewThings ty N) (take k ts)
      = Inr (filled ty N (take k ts) (?n - k), take k ?refs)" if "k \<le> ?n" for k
  proof -
    have lk: "length (take k ts) = k"
      using that assms(2) by simp
    have "length ([] :: 'a Thing list) + length (take k ts) < 2 ^ 32 - 1"
      using that assms(1) by (simp add: lk)
    then have "News (filled ty N [] (length (take k ts) + (?n - k))) (take k ts)
        = Inr (filled ty N ([] @ take k ts) (?n - k),
               map (\<lambda>i. slot_ref (Suc (length ([] :: 'a Thing list) + i)))
                 [0..<length (take k ts)])"
      by (rule News_filled)
    then have "News (filled ty N [] (k + (?n - k))) (take k ts)
        = Inr (filled ty N (take k ts) (?n - k), map (\<lambda>i. slot_ref (Suc i)) [0..<k])"
      by (simp only: lk append_Nil list.size add_0)
    moreover have "take k ?refs = map (\<lambda>i. slot_ref (Suc i)) [0..<k]"
      using that by (simp add: take_map)
    moreover have "k + (?n - k) = ?n"
      using that by simp
    ultimately show ?thesis
      by (simp add: start)
  qed
  have all: "News (NewThings ty N) ts = Inr (?s, ?refs)"
    using prefix [of ?n] assms(2) by simp
  have pre_active: "IsActive (filled ty N (take k ts) (?n - k)) (?refs ! i) = Inr True"
    if "k \<le> ?n" "i < k" for k i
  proof -
    have "wf (filled ty N (take k ts) (?n - k))"
      using that assms(2) big by (intro wf_filled) simp_all
    moreover have "active (filled ty N (take k ts) (?n - k)) (slot_ref (Suc i))"
      using that assms by (intro active_filled) simp_all
    ultimately show ?thesis
      using that by (simp add: IsActive_wf)
  qed
  have wf_s: "wf ?s"
    using assms(2) big by (intro wf_filled) simp_all
  have new: "New ?s t = Inr (?s', NilRef)"
  proof (rule New_no_free_slot [OF wf_s])
    show "0 < length (used ?s)" by (simp add: filled_def)
    show "\<forall>i. 0 < i \<and> i < length (used ?s) \<longrightarrow> used ?s ! i"
      by (auto simp: filled_def nth_Cons')
  qed
  have wf_s': "wf ?s'"
    using wf_s by (simp add: wf_def)
  have after: "IsActive ?s' (?refs ! i) = Inr True \<and> Get ?s' (?refs ! i) = Inr (?s', AtSlot (Suc i))
      \<and> load ?s' (AtSlot (Suc i)) = ts ! i" if "i < ?n" for i
  proof -
    have r: "?refs ! i = slot_ref (Suc i)"
      using that by simp
    have u: "unat (idx (slot_ref (Suc i))) = Suc i"
      using that assms(1) by (intro slot_ref_idx) simp
    have "active ?s (slot_ref (Suc i))"
      using that assms by (intro active_filled) simp_all
    then have a: "active ?s' (slot_ref (Suc i))"
      by (simp add: active_def isNotNil_def u)
    have "things ?s' ! Suc i = ts ! i"
      using that assms(2) by (simp add: filled_def nth_append)
    then show ?thesis
      using a by (simp add: r IsActive_wf [OF wf_s'] Get_wf [OF wf_s'] load_def u)
  qed
  have "length ?refs = ?n" by simp
  moreover have "distinct ?refs" using assms(1) by (rule slot_refs_distinct)
  moreover have "NilRef \<notin> set ?refs" using assms(1) by (rule slot_refs_not_nil)
  moreover have "\<forall>k \<le> ?n. \<exists>sk. News (NewThings ty N) (take k ts) = Inr (sk, take k ?refs)
           \<and> (\<forall>i < k. IsActive sk (?refs ! i) = Inr True)"
    using prefix pre_active by blast
  moreover have "\<exists>s'. New ?s t = Inr (s', NilRef)
           \<and> (\<forall>i < ?n. IsActive s' (?refs ! i) = Inr True
                 \<and> Get s' (?refs ! i) = Inr (s', AtSlot (Suc i))
                 \<and> load s' (AtSlot (Suc i)) = ts ! i)"
    using new after by blast
  ultimately show ?thesis
    using all by blast
qed

text \<open>The capacity 3 with the records A, B, C, and A again for the fourth call.\<close>

theorem New_until_exhausted_witness:
  "News (NewThings itemType 3) [tA, tB, tC] = Inr (scn3, [refA, refB, refC])
   \<and> New scn3 tA = Inr (scn3_full, NilRef)
   \<and> IsActive scn3_full refA = Inr True \<and> IsActive scn3_full refB = Inr True
   \<and> IsActive scn3_full refC = Inr True
   \<and> Get scn3_full refC = Inr (scn3_full, AtSlot 3) \<and> load scn3_full (AtSlot 3) = tC"
proof -
  have n: "News (NewThings itemType 3) [tA, tB, tC] = Inr (scn3, [refA, refB, refC])"
    using scn1_eq scn2_eq scn3_eq by (simp add: scn0_eq)
  have u: "unat (3 :: uint) < 2 ^ 32 - 1" "length [tA, tB, tC] = unat (3 :: uint)"
    by simp_all
  from New_until_exhausted [OF u, of itemType tA] n obtain s'
    where s': "New scn3 tA = Inr (s', NilRef)"
      "\<forall>i < unat (3 :: uint). IsActive s' ([refA, refB, refC] ! i) = Inr True
          \<and> Get s' ([refA, refB, refC] ! i) = Inr (s', AtSlot (Suc i))
          \<and> load s' (AtSlot (Suc i)) = [tA, tB, tC] ! i"
    by auto
  have full: "New scn3 tA = Inr (scn3_full, NilRef)"
    by (simp add: scn3_def scn3_full_def scn_defs arena_defs)
  with s'(1) have e: "s' = scn3_full" by simp
  have a0: "IsActive s' refA = Inr True"
    using s'(2) [THEN spec, of 0] by simp
  have a1: "IsActive s' refB = Inr True"
    using s'(2) [THEN spec, of 1] by simp
  have a2: "IsActive s' refC = Inr True \<and> Get s' refC = Inr (s', AtSlot 3)
      \<and> load s' (AtSlot 3) = tC"
    using s'(2) [THEN spec, of 2] by simp
  from n full e a0 a1 a2 show ?thesis by simp
qed

text \<open>
  C4 as stated holds for every capacity. \<^verbatim>\<open>NewThings\<close> keeps \<^verbatim>\<open>uint32(maxThings)\<close>:
  for the capacity \<open>2^32 - 1\<close> that is 0, and the reference the first \<^verbatim>\<open>New\<close> returns,
  \<open>(1, 0)\<close>, is not active.
\<close>

theorem New_capacity_truncated:
  "New (NewThings itemType 4294967295) tA = Inr (big1, \<lparr>idx = 1, generation = 0\<rparr>)
   \<and> \<lparr>idx = 1, generation = 0\<rparr> \<noteq> NilRef
   \<and> maxThings big1 = 0
   \<and> IsActive big1 \<lparr>idx = 1, generation = 0\<rparr> = Inr False"
proof -
  have "NewThings itemType 4294967295 = (filled itemType 4294967295 [] (unat (4294967295 :: uint)) :: nat Things)"
    by (rule NewThings_filled) simp
  then have start: "NewThings itemType 4294967295 = (filled itemType 4294967295 [] (Suc 4294967294) :: nat Things)"
    by simp
  have "New (filled itemType 4294967295 [] (Suc 4294967294)) tA
      = Inr (filled itemType 4294967295 ([] @ [tA]) 4294967294, slot_ref (Suc (length ([] :: nat Thing list))))"
    by (rule New_filled) simp
  then have new: "New (NewThings itemType 4294967295) tA = Inr (big1, \<lparr>idx = 1, generation = 0\<rparr>)"
    by (simp add: start big1_def slot_ref_def)
  have m: "maxThings big1 = 0"
    by (simp add: big1_def filled_def)
  have "IsActive big1 \<lparr>idx = 1, generation = 0\<rparr> = Inr False"
    by (simp add: IsActive_def isNotNil_def m)
  then show ?thesis
    using new m by (simp add: NilRef_def)
qed

text \<open>
  C5. For every \<open>k \<ge> 1\<close>: in a well-formed arena, laid out in memory as Go lays it out,
  after \<^verbatim>\<open>Init\<close> of a list field (the one the type has at byte offset \<open>f\<close> of the
  record, still the zero list) of the live owner \<open>a\<close> and \<^verbatim>\<open>Append\<close> of \<open>k\<close> distinct
  live references \<open>bs\<close>, none of them the owner, both calls return and then: \<^verbatim>\<open>Each\<close> on the list
  returns (with any fuel of at least \<open>k\<close>) and yields exactly the \<open>k\<close> members in the order
  appended, each with the pointer to its record in the arena; \<^verbatim>\<open>Count\<close> returns \<open>k\<close>;
  \<^verbatim>\<open>first\<close> is the first reference appended, and \<^verbatim>\<open>next\<close> leads from each member to the
  one appended after it and from the last back to the first, so that the walk from
  \<^verbatim>\<open>first\<close> is back there after exactly \<open>k\<close> steps (the members are distinct).
\<close>

theorem Append_then_Each:
  assumes "wf s" and "IsActive s a = Inr True"
    and "rd s (InSlot (unat (idx a)) f) = zeroList"
    and "bs \<noteq> []" and "distinct bs" and "\<forall>b \<in> set bs. IsActive s b = Inr True"
    and "a \<notin> set bs"
    and "layout_ok s" and "f \<in> set (listFields (thingType s))"
  shows "\<exists>s1 s2. Init s (InSlot (unat (idx a)) f) a gap = Inr s1
     \<and> Append s1 (InSlot (unat (idx a)) f) bs = Inr s2
     \<and> (\<forall>n \<ge> length bs.
           Each n s2 (InSlot (unat (idx a)) f)
             = Inr (s2, map (\<lambda>b. (b, AtSlot (unat (idx b)))) bs)
           \<and> Count n s2 (InSlot (unat (idx a)) f) = Inr (s2, length bs))
     \<and> first (rd s2 (InSlot (unat (idx a)) f)) = hd bs
     \<and> (\<forall>i < length bs.
           next_of s2 (InSlot (unat (idx a)) f) (bs ! i) = Inr (bs ! (Suc i mod length bs)))
     \<and> (\<forall>b \<in> set bs. IsActive s2 b = Inr True \<and> unat (idx b) < length (things s2))"
proof -
  let ?h = "InSlot (unat (idx a)) f"
  from assms(1,2) have a: "active s a" by (simp add: IsActive_wf)
  from assms(1,6) have act: "\<forall>b \<in> set bs. active s b" by (simp add: IsActive_wf)
  from Init_linked [OF assms(1) a assms(3,8,9)] obtain s1
    where s1: "Init s ?h a gap = Inr s1" "same_slots s s1" "linked s1 a f []"
    by blast
  from act s1(2) have act1: "\<forall>b \<in> set bs. active s1 b" by (simp add: same_slots_active)
  from Append_linked [OF s1(3) act1] assms(5,7) obtain s2
    where s2: "Append s1 ?h bs = Inr s2" "same_slots s1 s2" "linked s2 a f bs"
    by auto
  let ?c = "rd s2 ?h"
  from s2(3) assms(4) have l: "wf s2" "isInitialized ?c" "arena ?c" "offset ?c = of_nat f"
      "first ?c = hd bs" "\<forall>b \<in> set bs. active s2 b"
      "\<forall>i < length bs. nxt (rd s2 (InSlot (unat (idx (bs ! i))) f)) = bs ! (Suc i mod length bs)"
      "layout_ok s2" "f \<in> set (listFields (thingType s2))"
    by (simp_all add: linked_def)
  have each: "Each n s2 ?h = Inr (s2, map (\<lambda>b. (b, AtSlot (unat (idx b)))) bs)"
    if "length bs \<le> n" for n
  proof -
    have "Each_loop n s2 ?c (bs ! 0) = Inr (map (\<lambda>b. (b, AtSlot (unat (idx b)))) (drop 0 bs))"
      using assms(4) that by (intro Each_loop_linked [OF s2(3)]) simp_all
    then show ?thesis
      using l(2,5) assms(4) by (simp add: Each_def hd_conv_nth)
  qed
  have count: "Count n s2 ?h = Inr (s2, length bs)" if "length bs \<le> n" for n
    using each [OF that] l(2) by (simp add: Count_def)
  have nxt: "next_of s2 ?h (bs ! i) = Inr (bs ! (Suc i mod length bs))" if "i < length bs" for i
  proof -
    from that l(6) have "active s2 (bs ! i)" by simp
    with l(1,8,9,3,4)
    have "getListDataFromThing s2 ?c (bs ! i) = Inr (InSlot (unat (idx (bs ! i))) f)"
      by (rule getListDataFromThing_active)
    then show ?thesis
      using l(7) that by (simp add: next_of_def)
  qed
  have live: "IsActive s2 b = Inr True \<and> unat (idx b) < length (things s2)" if "b \<in> set bs" for b
    using that l(1,6) active_bound [of s2 b] by (simp add: IsActive_wf)
  show ?thesis
    using s1(1) s2(1) each count l(5) nxt live by blast
qed

text \<open>A's list with B and C appended, in the arena of capacity 3.\<close>

theorem Append_then_Each_witness:
  "Init scn3 (InSlot 1 0) refA 0 = Inr scn4
   \<and> Append scn4 (InSlot 1 0) [refB, refC] = Inr scn6
   \<and> Each 2 scn6 (InSlot 1 0) = Inr (scn6, [(refB, AtSlot 2), (refC, AtSlot 3)])
   \<and> Count 2 scn6 (InSlot 1 0) = Inr (scn6, 2)
   \<and> next_of scn6 (InSlot 1 0) refB = Inr refC \<and> next_of scn6 (InSlot 1 0) refC = Inr refB"
proof -
  have a: "IsActive scn3 refA = Inr True" "\<forall>b \<in> set [refB, refC]. IsActive scn3 b = Inr True"
    by (simp_all add: scn3_def scn_defs arena_defs)
  have z: "rd scn3 (InSlot (unat (idx refA)) 0) = zeroList"
    by (simp add: scn3_def scn_defs rd_def)
  have d: "[refB, refC] \<noteq> []" "distinct [refB, refC]" "refA \<notin> set [refB, refC]"
    by (simp_all add: refA_def refB_def refC_def)
  have i: "unat (idx refA) = 1" "unat (idx refB) = 2" "unat (idx refC) = 3"
    by (simp_all add: refA_def refB_def refC_def)
  have f: "0 \<in> set (listFields (thingType scn3))"
    by (simp add: scn3_def scn_def itemType_def)
  from Append_then_Each [OF wf_scn3 a(1) z d(1,2) a(2) d(3) layout_ok_scn3 f, of 0] obtain s1 s2
    where s: "Init scn3 (InSlot (unat (idx refA)) 0) refA 0 = Inr s1"
      "Append s1 (InSlot (unat (idx refA)) 0) [refB, refC] = Inr s2"
      "\<forall>n \<ge> length [refB, refC].
          Each n s2 (InSlot (unat (idx refA)) 0)
            = Inr (s2, map (\<lambda>b. (b, AtSlot (unat (idx b)))) [refB, refC])
          \<and> Count n s2 (InSlot (unat (idx refA)) 0) = Inr (s2, length [refB, refC])"
      "\<forall>i < length [refB, refC].
          next_of s2 (InSlot (unat (idx refA)) 0) ([refB, refC] ! i)
            = Inr ([refB, refC] ! (Suc i mod length [refB, refC]))"
    by blast
  from s(1) scn4_eq have s1: "s1 = scn4" by (simp add: i)
  with s(2) scn6_Append have s2: "s2 = scn6" by (simp add: i)
  from s(3) [THEN spec, of 2] have e: "Each 2 scn6 (InSlot 1 0)
        = Inr (scn6, [(refB, AtSlot 2), (refC, AtSlot 3)])"
      "Count 2 scn6 (InSlot 1 0) = Inr (scn6, 2)"
    by (simp_all add: s2 i)
  from s(4) [THEN spec, of 0] have n0: "next_of scn6 (InSlot 1 0) refB = Inr refC"
    by (simp add: s2 i)
  from s(4) [THEN spec, of 1] have n1: "next_of scn6 (InSlot 1 0) refC = Inr refB"
    by (simp add: s2 i)
  from scn4_eq scn6_Append e n0 n1 show ?thesis by simp
qed

text \<open>
  C6. For every reference whatsoever \<^verbatim>\<open>Get\<close> returns a pointer, never a panic, in every
  well-formed arena: a pointer into the slice (within its bounds) to the stored record when
  the reference is active, and otherwise a pointer to a new zero value, after a warning.
  Every arena that calls of the package make of a new one is well-formed (\<open>reachable_wf\<close>).
\<close>

theorem Get_never_panics:
  assumes "wf s"
  shows "(IsActive s ref = Inr True \<and> Get s ref = Inr (s, AtSlot (unat (idx ref)))
            \<and> unat (idx ref) < length (things s)
            \<and> load s (AtSlot (unat (idx ref))) = things s ! unat (idx ref))
         \<or> (IsActive s ref = Inr False
            \<and> Get s ref = Inr (log_if Warn ''Derefence of NilRef.'' s, AtZero)
            \<and> load (log_if Warn ''Derefence of NilRef.'' s) AtZero = zeroThing)"
  using assms isNotNil_bound [of s ref]
  by (auto simp: Get_wf IsActive_wf load_def active_def wf_def)

text \<open>The active A, a stale generation, an index out of range and \<^verbatim>\<open>NilRef\<close>, in the arena
  that holds A alone.\<close>

theorem Get_never_panics_witness:
  "wf scn1
   \<and> Get scn1 refA = Inr (scn1, AtSlot 1) \<and> load scn1 (AtSlot 1) = tA
   \<and> Get scn1 \<lparr>idx = 1, generation = 7\<rparr> = Inr (emit Warn ''Derefence of NilRef.'' scn1, AtZero)
   \<and> Get scn1 \<lparr>idx = 9, generation = 0\<rparr> = Inr (emit Warn ''Derefence of NilRef.'' scn1, AtZero)
   \<and> Get scn1 NilRef = Inr (emit Warn ''Derefence of NilRef.'' scn1, AtZero)"
  using Get_never_panics [OF wf_scn1, of refA]
    Get_never_panics [OF wf_scn1, of "\<lparr>idx = 1, generation = 7\<rparr>"]
    Get_never_panics [OF wf_scn1, of "\<lparr>idx = 9, generation = 0\<rparr>"]
    Get_never_panics [OF wf_scn1, of NilRef] wf_scn1
  by (simp add: scn1_def scn_defs arena_defs load_def)

text \<open>
  C7 (the code where the claim fails). \<^verbatim>\<open>InsertNext\<close> is to do nothing, apart from the
  diagnostic, when given \<^verbatim>\<open>NilRef\<close> or called on an uninitialized or an empty list (its
  own comment says so for the last two). None of its three checks returns. On a list field
  that was never initialized the call panics (the arena pointer of the field is nil); on A's
  initialized but empty list \<^verbatim>\<open>InsertNext(B)\<close> sets \<^verbatim>\<open>next\<close> of the list to B and records
  B's field in \<^verbatim>\<open>insideLists\<close>; on A's list with B and C, \<^verbatim>\<open>InsertNext(NilRef)\<close> sets
  \<^verbatim>\<open>next\<close> of the list and \<^verbatim>\<open>prev\<close> of B to \<^verbatim>\<open>NilRef\<close>.
\<close>

theorem InsertNext_checks_do_not_return:
  "InsertNext scn3 (InSlot 2 0) refC = Inl NilDereference
   \<and> InsertNext scn3 (InSlot 2 0) NilRef = Inl NilDereference
   \<and> InsertNext scn4 (InSlot 1 0) refB = Inr scn4_ins
   \<and> nxt (rd scn4 (InSlot 1 0)) = NilRef \<and> nxt (rd scn4_ins (InSlot 1 0)) = refB
   \<and> InsertNext scn6 (InSlot 1 0) NilRef = Inr scn6_ins
   \<and> prev (rd scn6 (InSlot 2 0)) = refC \<and> prev (rd scn6_ins (InSlot 2 0)) = NilRef"
proof -
  have "InsertNext scn3 (InSlot 2 0) refC = Inl NilDereference"
    by (simp add: scn3_def scn_defs arena_defs list_defs
      cong: and_then_weak_cong let_weak_cong)
  moreover have "InsertNext scn3 (InSlot 2 0) NilRef = Inl NilDereference"
    by (simp add: scn3_def scn_defs arena_defs list_defs
      cong: and_then_weak_cong let_weak_cong)
  moreover have "InsertNext scn4 (InSlot 1 0) refB = Inr scn4_ins"
    by (simp add: scn4_def scn4_ins_def scn_defs arena_defs list_defs
      cong: and_then_weak_cong let_weak_cong)
  moreover have "InsertNext scn6 (InSlot 1 0) NilRef = Inr scn6_ins"
    by (simp add: scn6_def scn6_ins_def scn_defs arena_defs list_defs
      cong: and_then_weak_cong let_weak_cong)
  moreover have "nxt (rd scn4 (InSlot 1 0)) = NilRef \<and> nxt (rd scn4_ins (InSlot 1 0)) = refB"
    by (simp add: scn4_def scn4_ins_def scn_defs rd_def)
  moreover have "prev (rd scn6 (InSlot 2 0)) = refC \<and> prev (rd scn6_ins (InSlot 2 0)) = NilRef"
    by (simp add: scn6_def scn6_ins_def scn_defs rd_def)
  ultimately show ?thesis by simp
qed

text \<open>
  C8 (the code where the claim fails). Every operation is to behave the same with the sink
  set to nil, and none is to panic. The rejecting branch of \<^verbatim>\<open>append\<close> calls
  \<^verbatim>\<open>logger.Warn\<close> without the nil check every other call site has: with a sink,
  \<^verbatim>\<open>Append(NilRef)\<close> and \<^verbatim>\<open>Append\<close> of the freed B warn and return; after
  \<^verbatim>\<open>SetLogger(nil)\<close> the same calls panic.
\<close>

theorem append_panics_without_logger:
  "append1 scn4 (InSlot 1 0) NilRef = Inr (emit Warn ''Append to uninitialized list'' scn4)
   \<and> append1 (SetLogger scn4 False) (InSlot 1 0) NilRef = Inl NilDereference
   \<and> append1 scn7 (InSlot 1 0) refB = Inr (emit Warn ''Append to uninitialized list'' scn7)
   \<and> append1 (SetLogger scn7 False) (InSlot 1 0) refB = Inl NilDereference"
proof -
  have "append1 scn4 (InSlot 1 0) NilRef = Inr (emit Warn ''Append to uninitialized list'' scn4)"
    by (simp add: scn4_def scn_defs arena_defs list_defs
      cong: and_then_weak_cong let_weak_cong)
  moreover have "append1 (SetLogger scn4 False) (InSlot 1 0) NilRef = Inl NilDereference"
    by (simp add: SetLogger_def scn4_def scn_defs arena_defs list_defs
      cong: and_then_weak_cong let_weak_cong)
  moreover have "append1 scn7 (InSlot 1 0) refB = Inr (emit Warn ''Append to uninitialized list'' scn7)"
    by (simp add: scn7_def scn_defs arena_defs list_defs
      cong: and_then_weak_cong let_weak_cong)
  moreover have "append1 (SetLogger scn7 False) (InSlot 1 0) refB = Inl NilDereference"
    by (simp add: SetLogger_def scn7_def scn_defs arena_defs list_defs
      cong: and_then_weak_cong let_weak_cong)
  ultimately show ?thesis by simp
qed

text \<open>
  C9 (the code where the claim fails). \<^verbatim>\<open>PopSelf\<close> on the sole member of a list is to
  empty the list: \<^verbatim>\<open>Count\<close> on it is 0 afterwards. In the concrete arena B is the only
  member of A's list, which counts 1 and yields B. \<^verbatim>\<open>PopSelf\<close> on B's list field takes
  the single-element branch, \<^verbatim>\<open>*curr = List[Thing]{}\<close>, and returns: B's control block
  is the zero list, and nothing else is written. The list field of the owner A is as it was,
  initialized and with \<^verbatim>\<open>first = B\<close>; \<^verbatim>\<open>Owner\<close> and \<^verbatim>\<open>First\<close> on it answer A
  and B's record without a diagnostic, and its traversal starts at B, whose \<^verbatim>\<open>next\<close> is
  now nil, and never comes back to \<^verbatim>\<open>first\<close>: with any fuel the count runs out of fuel.
\<close>

theorem PopSelf_sole_member_leaves_head:
  "Each 5 scn5 (InSlot 1 0) = Inr (scn5, [(refB, AtSlot 2)])
   \<and> Count 5 scn5 (InSlot 1 0) = Inr (scn5, 1)
   \<and> rd scn5 (InSlot 2 0) = node refB refB refB
   \<and> PopSelf scn5 (InSlot 2 0) = Inr scn5_pop
   \<and> rd scn5_pop (InSlot 2 0) = zeroList
   \<and> rd scn5_pop (InSlot 1 0) = rd scn5 (InSlot 1 0)
   \<and> isInitialized (rd scn5_pop (InSlot 1 0))
   \<and> first (rd scn5_pop (InSlot 1 0)) = refB
   \<and> Owner scn5_pop (InSlot 1 0) = (scn5_pop, refA)
   \<and> First scn5_pop (InSlot 1 0) = Inr (scn5_pop, AtSlot 2)
   \<and> (\<forall>n. Count n scn5_pop (InSlot 1 0) = Inl OutOfFuel)"
proof -
  have e: "Each 5 scn5 (InSlot 1 0) = Inr (scn5, [(refB, AtSlot 2)])"
    by (simp add: scn5_def scn_defs arena_defs list_defs
      cong: and_then_weak_cong let_weak_cong)
  then have c: "Count 5 scn5 (InSlot 1 0) = Inr (scn5, 1)"
    by (simp add: Count_def scn5_def scn_defs rd_def)
  have b: "rd scn5 (InSlot 2 0) = node refB refB refB"
    by (simp add: scn5_def scn_def with_list_def rd_def)
  have i: "isInitialized (rd scn5_pop (InSlot 1 0))"
    by (simp add: scn5_pop_def scn_defs rd_def)
  have o: "Owner scn5_pop (InSlot 1 0) = (scn5_pop, refA)"
    by (simp add: scn5_pop_def scn_defs Owner_def rd_def)
  have f: "First scn5_pop (InSlot 1 0) = Inr (scn5_pop, AtSlot 2)"
    by (simp add: scn5_pop_def scn_defs arena_defs list_defs
      cong: and_then_weak_cong let_weak_cong)
  have h: "first (rd scn5 (InSlot 1 0)) = refB"
    by (simp add: scn5_def scn_defs rd_def)
  show ?thesis
    using e c b i o f h scn5_pop_eq scn5_pop_head by simp
qed



end
